theory Spec2Isabelle
  imports Complex_Main "HOL-Library.Char_ord" "HOL-Library.List_Lexorder" "HOL-Library.Product_Lexorder"
begin

section \<open>The sequence matcher used by the change test\<close>

text \<open>
  \<open>files_are_different\<close> in \<open>config/filewrite.py\<close> calls
  \<open>difflib.SequenceMatcher(a=..., b=...).ratio()\<close> of the Python standard library,
  with \<open>isjunk=None\<close> and \<open>autojunk=True\<close> (the defaults). The matcher is embedded
  here method by method: \<open>__chain_b\<close>, \<open>find_longest_match\<close>,
  \<open>get_matching_blocks\<close>, \<open>ratio\<close>.
\<close>

subsection \<open>\<open>__chain_b\<close>: the index of \<open>b\<close>\<close>

text \<open>
  \<open>for i, elt in enumerate(b): b2j.setdefault(elt, []).append(i)\<close>, then the purge of the
  popular elements when \<open>len(b) >= 200\<close>. No junk is purged, since \<open>isjunk\<close> is None.
\<close>

definition b2j_add :: "nat \<times> 'a \<Rightarrow> ('a \<rightharpoonup> nat list) \<Rightarrow> ('a \<rightharpoonup> nat list)" where
  "b2j_add = (\<lambda>(i, elt) b2j. b2j(elt \<mapsto> (case b2j elt of None \<Rightarrow> [] | Some indices \<Rightarrow> indices) @ [i]))"

definition chain_b :: "'a list \<Rightarrow> ('a \<rightharpoonup> nat list)" where
  "chain_b b =
     (let b2j = fold b2j_add (enumerate 0 b) Map.empty;
          n = length b
      in if 200 \<le> n
         then (let ntest = n div 100 + 1
               in (\<lambda>elt. case b2j elt of None \<Rightarrow> None
                          | Some idxs \<Rightarrow> if ntest < length idxs then None else Some idxs))
         else b2j)"

record 'a matcher =
  seq_a :: "'a list"
  seq_b :: "'a list"
  b2j :: "'a \<rightharpoonup> nat list"
  bjunk :: "'a set"

definition SequenceMatcher :: "'a list \<Rightarrow> 'a list \<Rightarrow> 'a matcher" where
  "SequenceMatcher a b = \<lparr>seq_a = a, seq_b = b, b2j = chain_b b, bjunk = {}\<rparr>"

subsection \<open>\<open>find_longest_match\<close>\<close>

text \<open>\<open>b2j.get(a[i], nothing)\<close> and \<open>j2len.get(j-1, 0)\<close>; the key \<open>-1\<close> is never present.\<close>

definition b2j_get :: "('a \<rightharpoonup> nat list) \<Rightarrow> 'a \<Rightarrow> nat list" where
  "b2j_get m x = (case m x of None \<Rightarrow> [] | Some idxs \<Rightarrow> idxs)"

definition j2lenget :: "(nat \<rightharpoonup> nat) \<Rightarrow> nat \<Rightarrow> nat" where
  "j2lenget j2len j = (if j = 0 then 0 else case j2len (j - 1) of None \<Rightarrow> 0 | Some v \<Rightarrow> v)"

text \<open>
  The loop state is \<open>(newj2len, besti, bestj, bestsize)\<close>. The inner loop runs over the
  indices of \<open>a[i]\<close> in \<open>b\<close>: \<open>continue\<close> below \<open>blo\<close>, \<open>break\<close> from \<open>bhi\<close> on.
  \<open>i-k+1\<close> is written \<open>i + 1 - k\<close>; \<open>k \<le> i + 1\<close> always holds there.
\<close>

type_synonym best = "(nat \<rightharpoonup> nat) \<times> nat \<times> nat \<times> nat"

fun inner_loop :: "nat \<Rightarrow> nat \<Rightarrow> nat \<Rightarrow> (nat \<rightharpoonup> nat) \<Rightarrow> nat list \<Rightarrow> best \<Rightarrow> best" where
  "inner_loop i blo bhi j2len [] st = st"
| "inner_loop i blo bhi j2len (j # js) (newj2len, besti, bestj, bestsize) =
     (if j < blo then inner_loop i blo bhi j2len js (newj2len, besti, bestj, bestsize)
      else if bhi \<le> j then (newj2len, besti, bestj, bestsize)
      else (let k = j2lenget j2len j + 1
            in if bestsize < k
               then inner_loop i blo bhi j2len js (newj2len(j \<mapsto> k), i + 1 - k, j + 1 - k, k)
               else inner_loop i blo bhi j2len js (newj2len(j \<mapsto> k), besti, bestj, bestsize)))"

fun outer_loop :: "'a list \<Rightarrow> ('a \<rightharpoonup> nat list) \<Rightarrow> nat \<Rightarrow> nat \<Rightarrow> nat list \<Rightarrow> best \<Rightarrow> best" where
  "outer_loop a m blo bhi [] st = st"
| "outer_loop a m blo bhi (i # is) (j2len, besti, bestj, bestsize) =
     outer_loop a m blo bhi is
       (inner_loop i blo bhi j2len (b2j_get m (a ! i)) (Map.empty, besti, bestj, bestsize))"

text \<open>
  The four \<open>while\<close> loops that extend the best block: backwards and forwards over
  elements that satisfy \<open>want\<close> (first the non-junk ones, then the junk ones).
\<close>

function extend_back ::
  "'a list \<Rightarrow> 'a list \<Rightarrow> ('a \<Rightarrow> bool) \<Rightarrow> nat \<Rightarrow> nat \<Rightarrow> nat \<times> nat \<times> nat \<Rightarrow> nat \<times> nat \<times> nat" where
  "extend_back a b want alo blo (besti, bestj, bestsize) =
     (if alo < besti \<and> blo < bestj \<and> want (b ! (bestj - 1)) \<and> a ! (besti - 1) = b ! (bestj - 1)
      then extend_back a b want alo blo (besti - 1, bestj - 1, bestsize + 1)
      else (besti, bestj, bestsize))"
  by pat_completeness auto
termination
  by (relation "measure (\<lambda>(a, b, want, alo, blo, besti, bestj, bestsize). besti)") auto

function extend_fwd ::
  "'a list \<Rightarrow> 'a list \<Rightarrow> ('a \<Rightarrow> bool) \<Rightarrow> nat \<Rightarrow> nat \<Rightarrow> nat \<times> nat \<times> nat \<Rightarrow> nat \<times> nat \<times> nat" where
  "extend_fwd a b want ahi bhi (besti, bestj, bestsize) =
     (if besti + bestsize < ahi \<and> bestj + bestsize < bhi \<and> want (b ! (bestj + bestsize))
         \<and> a ! (besti + bestsize) = b ! (bestj + bestsize)
      then extend_fwd a b want ahi bhi (besti, bestj, bestsize + 1)
      else (besti, bestj, bestsize))"
  by pat_completeness auto
termination
  by (relation "measure (\<lambda>(a, b, want, ahi, bhi, besti, bestj, bestsize). ahi - (besti + bestsize))") auto

definition find_longest_match :: "'a matcher \<Rightarrow> nat \<Rightarrow> nat \<Rightarrow> nat \<Rightarrow> nat \<Rightarrow> nat \<times> nat \<times> nat" where
  "find_longest_match m alo ahi blo bhi =
     (let a = seq_a m; b = seq_b m; isbjunk = (\<lambda>x. x \<in> bjunk m);
          (j2len, best) = outer_loop a (b2j m) blo bhi [alo..<ahi] (Map.empty, alo, blo, 0);
          best = extend_back a b (\<lambda>x. \<not> isbjunk x) alo blo best;
          best = extend_fwd a b (\<lambda>x. \<not> isbjunk x) ahi bhi best;
          best = extend_back a b isbjunk alo blo best;
          best = extend_fwd a b isbjunk ahi bhi best
      in best)"

declare extend_back.simps [simp del] extend_fwd.simps [simp del]

subsection \<open>The block found lies in the window and matches\<close>

text \<open>
  Two predicates for the proofs: \<open>best_ok\<close> says that a candidate block lies in the
  window \<open>a[alo:ahi]\<close>, \<open>b[blo:bhi]\<close> and that the two slices agree;
  \<open>len_ok\<close> says the same of the lengths recorded in \<open>j2len\<close> for the row before \<open>i\<close>.
  The elements are read through two index functions \<open>fa\<close> and \<open>fb\<close>, so that the
  same lemmas give the window alone (constant functions) and the agreement of the
  slices (\<open>fa = nth a\<close>, \<open>fb = nth b\<close>).
\<close>

definition best_ok :: "(nat \<Rightarrow> 'c) \<Rightarrow> (nat \<Rightarrow> 'c) \<Rightarrow> nat \<Rightarrow> nat \<Rightarrow> nat \<Rightarrow> nat \<Rightarrow> nat \<times> nat \<times> nat \<Rightarrow> bool" where
  "best_ok fa fb alo ahi blo bhi = (\<lambda>(besti, bestj, bestsize).
     alo \<le> besti \<and> blo \<le> bestj
     \<and> (if bestsize = 0 then besti = alo \<and> bestj = blo
          else besti + bestsize \<le> ahi \<and> bestj + bestsize \<le> bhi)
     \<and> (\<forall>t<bestsize. fa (besti + t) = fb (bestj + t)))"

definition len_ok :: "(nat \<Rightarrow> 'c) \<Rightarrow> (nat \<Rightarrow> 'c) \<Rightarrow> nat \<Rightarrow> nat \<Rightarrow> nat \<Rightarrow> (nat \<rightharpoonup> nat) \<Rightarrow> bool" where
  "len_ok fa fb alo blo i j2len =
     (\<forall>j v. j2len j = Some v \<longrightarrow>
        blo \<le> j \<and> v \<le> i - alo \<and> v \<le> j + 1 - blo \<and> (\<forall>t<v. fa (i - 1 - t) = fb (j - t)))"

lemma len_ok_empty: "len_ok fa fb alo blo i Map.empty"
  by (simp add: len_ok_def)

lemma j2lenget_bounds:
  assumes "len_ok fa fb alo blo i j2len" "blo \<le> j"
  shows "j2lenget j2len j \<le> i - alo" "j2lenget j2len j \<le> j - blo"
    "\<forall>t<j2lenget j2len j. fa (i - 1 - t) = fb (j - 1 - t)"
proof -
  show "j2lenget j2len j \<le> i - alo"
    using assms by (auto simp: len_ok_def j2lenget_def split: option.splits)
  show "j2lenget j2len j \<le> j - blo"
  proof (cases "j = 0")
    case True
    then show ?thesis by (simp add: j2lenget_def)
  next
    case False
    show ?thesis
    proof (cases "j2len (j - 1)")
      case None
      then show ?thesis using False by (simp add: j2lenget_def)
    next
      case (Some v)
      then have "blo \<le> j - 1" "v \<le> (j - 1) + 1 - blo"
        using assms(1) unfolding len_ok_def by blast+
      then show ?thesis using False Some by (simp add: j2lenget_def)
    qed
  qed
  show "\<forall>t<j2lenget j2len j. fa (i - 1 - t) = fb (j - 1 - t)"
    using assms by (auto simp: len_ok_def j2lenget_def split: option.splits)
qed

lemma len_ok_upd:
  assumes prev: "len_ok fa fb alo blo i j2len" and new: "len_ok fa fb alo blo (Suc i) newj2len"
    and "alo \<le> i" "blo \<le> j" "fb j = fa i"
  shows "len_ok fa fb alo blo (Suc i) (newj2len(j \<mapsto> j2lenget j2len j + 1))"
proof -
  let ?k = "j2lenget j2len j"
  have b1: "?k \<le> i - alo" and b2: "?k \<le> j - blo"
    and m: "\<forall>t<?k. fa (i - 1 - t) = fb (j - 1 - t)"
    using j2lenget_bounds[OF prev \<open>blo \<le> j\<close>] by auto
  have "fa (i - t) = fb (j - t)" if "t < ?k + 1" for t
  proof (cases t)
    case 0
    then show ?thesis using \<open>fb j = fa i\<close> by simp
  next
    case (Suc s)
    then have "s < ?k" using that by simp
    then have "fa (i - 1 - s) = fb (j - 1 - s)" using m by blast
    then show ?thesis using Suc by simp
  qed
  then have mt: "\<forall>t<?k + 1. fa (Suc i - 1 - t) = fb (j - t)" by simp
  show ?thesis
    unfolding len_ok_def
  proof (intro allI impI)
    fix ja v
    assume h: "(newj2len(j \<mapsto> ?k + 1)) ja = Some v"
    show "blo \<le> ja \<and> v \<le> Suc i - alo \<and> v \<le> ja + 1 - blo \<and> (\<forall>t<v. fa (Suc i - 1 - t) = fb (ja - t))"
    proof (cases "ja = j")
      case True
      then have "v = ?k + 1" using h by simp
      then show ?thesis using True mt b1 b2 \<open>alo \<le> i\<close> \<open>blo \<le> j\<close> by auto
    next
      case False
      then have "newj2len ja = Some v" using h by simp
      then show ?thesis using new unfolding len_ok_def by blast
    qed
  qed
qed

lemma best_ok_upd:
  assumes prev: "len_ok fa fb alo blo i j2len"
    and "alo \<le> i" "i < ahi" "blo \<le> j" "j < bhi" "fb j = fa i"
  shows "best_ok fa fb alo ahi blo bhi (i + 1 - (j2lenget j2len j + 1), j + 1 - (j2lenget j2len j + 1), j2lenget j2len j + 1)"
proof -
  let ?k = "j2lenget j2len j"
  have b1: "?k \<le> i - alo" and b2: "?k \<le> j - blo"
    and m: "\<forall>t<?k. fa (i - 1 - t) = fb (j - 1 - t)"
    using j2lenget_bounds[OF prev \<open>blo \<le> j\<close>] by auto
  have "fa (i - ?k + t) = fb (j - ?k + t)" if "t < ?k + 1" for t
  proof (cases "t = ?k")
    case True
    then show ?thesis using b1 b2 assms by simp
  next
    case False
    then have lt: "?k - 1 - t < ?k" using that by simp
    have "fa (i - 1 - (?k - 1 - t)) = fb (j - 1 - (?k - 1 - t))" using m lt by blast
    moreover have "i - 1 - (?k - 1 - t) = i - ?k + t" using b1 False that assms by simp
    moreover have "j - 1 - (?k - 1 - t) = j - ?k + t" using b2 False that assms by simp
    ultimately show ?thesis by simp
  qed
  then show ?thesis
    using b1 b2 assms unfolding best_ok_def by auto
qed

lemma inner_loop_ok:
  assumes "len_ok fa fb alo blo i j2len" "alo \<le> i" "i < ahi" "\<forall>j\<in>set js. fb j = fa i"
    and "len_ok fa fb alo blo (Suc i) newj2len" "best_ok fa fb alo ahi blo bhi (besti, bestj, bestsize)"
  shows "len_ok fa fb alo blo (Suc i) (fst (inner_loop i blo bhi j2len js (newj2len, besti, bestj, bestsize)))
       \<and> best_ok fa fb alo ahi blo bhi (snd (inner_loop i blo bhi j2len js (newj2len, besti, bestj, bestsize)))"
  using assms
proof (induction js arbitrary: newj2len besti bestj bestsize)
  case Nil
  then show ?case by simp
next
  case (Cons j js)
  have bj: "fb j = fa i" and rest: "\<forall>j\<in>set js. fb j = fa i" using Cons.prems(4) by auto
  show ?case
  proof (cases "j < blo")
    case True
    then show ?thesis using Cons.IH[OF Cons.prems(1-3) rest Cons.prems(5,6)] by simp
  next
    case lo: False
    show ?thesis
    proof (cases "bhi \<le> j")
      case True
      then show ?thesis using lo Cons.prems by simp
    next
      case hi: False
      have l: "len_ok fa fb alo blo (Suc i) (newj2len(j \<mapsto> j2lenget j2len j + 1))"
        using len_ok_upd[OF Cons.prems(1) Cons.prems(5) Cons.prems(2) _ bj] lo by simp
      show ?thesis
      proof (cases "bestsize < j2lenget j2len j + 1")
        case True
        have bo: "best_ok fa fb alo ahi blo bhi (i + 1 - (j2lenget j2len j + 1), j + 1 - (j2lenget j2len j + 1), j2lenget j2len j + 1)"
          using best_ok_upd[OF Cons.prems(1-3) _ _ bj] lo hi by simp
        have eq: "inner_loop i blo bhi j2len (j # js) (newj2len, besti, bestj, bestsize)
          = inner_loop i blo bhi j2len js (newj2len(j \<mapsto> j2lenget j2len j + 1),
              i + 1 - (j2lenget j2len j + 1), j + 1 - (j2lenget j2len j + 1), j2lenget j2len j + 1)"
          using True lo hi by (simp add: Let_def)
        show ?thesis unfolding eq by (rule Cons.IH[OF Cons.prems(1-3) rest l bo])
      next
        case False
        have eq: "inner_loop i blo bhi j2len (j # js) (newj2len, besti, bestj, bestsize)
          = inner_loop i blo bhi j2len js (newj2len(j \<mapsto> j2lenget j2len j + 1), besti, bestj, bestsize)"
          using False lo hi by (simp add: Let_def)
        show ?thesis unfolding eq by (rule Cons.IH[OF Cons.prems(1-3) rest l Cons.prems(6)])
      qed
    qed
  qed
qed


lemma outer_loop_ok:
  assumes "\<forall>i. \<forall>j\<in>set (b2j_get m (a ! i)). fb j = fa i"
    and "alo \<le> i" "len_ok fa fb alo blo i j2len" "best_ok fa fb alo ahi blo bhi best"
  shows "best_ok fa fb alo ahi blo bhi (snd (outer_loop a m blo bhi [i..<ahi] (j2len, best)))"
  using assms(2-)
proof (induction "ahi - i" arbitrary: i j2len best)
  case 0
  then show ?case by (cases best) simp
next
  case (Suc n)
  obtain besti bestj bestsize where best: "best = (besti, bestj, bestsize)" by (cases best) auto
  have lt: "i < ahi" using Suc.hyps(2) by simp
  let ?st = "inner_loop i blo bhi j2len (b2j_get m (a ! i)) (Map.empty, besti, bestj, bestsize)"
  have ok: "len_ok fa fb alo blo (Suc i) (fst ?st) \<and> best_ok fa fb alo ahi blo bhi (snd ?st)"
    using inner_loop_ok[OF Suc.prems(2) Suc.prems(1) lt _ len_ok_empty] assms(1) Suc.prems(3) best
    by blast
  have eq: "outer_loop a m blo bhi [i..<ahi] (j2len, best)
      = outer_loop a m blo bhi [Suc i..<ahi] (fst ?st, snd ?st)"
    using lt best by (simp add: upt_conv_Cons)
  have "n = ahi - Suc i" using Suc.hyps(2) by simp
  from Suc.hyps(1)[OF this _ conjunct1[OF ok] conjunct2[OF ok]] Suc.prems(1)
  show ?case unfolding eq by simp
qed

lemma extend_back_ok:
  assumes "\<forall>i j. a ! i = b ! j \<longrightarrow> fa i = fb j"
  shows "best_ok fa fb alo ahi blo bhi best
    \<Longrightarrow> best_ok fa fb alo ahi blo bhi (extend_back a b want alo blo best)"
  using assms
proof (induction a b want alo blo best rule: extend_back.induct)
  case (1 a b want alo blo besti bestj bestsize)
  show ?case
  proof (cases "alo < besti \<and> blo < bestj \<and> want (b ! (bestj - 1)) \<and> a ! (besti - 1) = b ! (bestj - 1)")
    case True
    have "fa (besti - 1 + t) = fb (bestj - 1 + t)" if "t < bestsize + 1" for t
    proof (cases t)
      case 0
      then show ?thesis using True "1.prems"(2) by simp
    next
      case (Suc s)
      then have "fa (besti + s) = fb (bestj + s)" using that "1.prems"(1) by (simp add: best_ok_def)
      then show ?thesis using Suc True by simp
    qed
    then have "best_ok fa fb alo ahi blo bhi (besti - 1, bestj - 1, bestsize + 1)"
      using True "1.prems"(1) unfolding best_ok_def by (auto split: if_splits)
    moreover have "extend_back a b want alo blo (besti, bestj, bestsize)
        = extend_back a b want alo blo (besti - 1, bestj - 1, bestsize + 1)"
      using True extend_back.simps[of a b want alo blo besti bestj bestsize] by simp
    ultimately show ?thesis using "1.IH"[OF True _ "1.prems"(2)] by simp
  next
    case False
    then show ?thesis using "1.prems"(1) by (subst extend_back.simps) auto
  qed
qed

lemma extend_fwd_ok:
  assumes "\<forall>i j. a ! i = b ! j \<longrightarrow> fa i = fb j"
  shows "best_ok fa fb alo ahi blo bhi best
    \<Longrightarrow> best_ok fa fb alo ahi blo bhi (extend_fwd a b want ahi bhi best)"
  using assms
proof (induction a b want ahi bhi best rule: extend_fwd.induct)
  case (1 a b want ahi bhi besti bestj bestsize)
  show ?case
  proof (cases "besti + bestsize < ahi \<and> bestj + bestsize < bhi \<and> want (b ! (bestj + bestsize))
         \<and> a ! (besti + bestsize) = b ! (bestj + bestsize)")
    case True
    have "fa (besti + t) = fb (bestj + t)" if "t < bestsize + 1" for t
    proof (cases "t = bestsize")
      case True2: True
      then show ?thesis using True "1.prems"(2) by simp
    next
      case False
      then show ?thesis using that "1.prems"(1) by (simp add: best_ok_def)
    qed
    then have "best_ok fa fb alo ahi blo bhi (besti, bestj, bestsize + 1)"
      using True "1.prems"(1) unfolding best_ok_def by (auto split: if_splits)
    moreover have "extend_fwd a b want ahi bhi (besti, bestj, bestsize)
        = extend_fwd a b want ahi bhi (besti, bestj, bestsize + 1)"
      using True extend_fwd.simps[of a b want ahi bhi besti bestj bestsize] by simp
    ultimately show ?thesis using "1.IH"[OF True _ "1.prems"(2)] by simp
  next
    case False
    then show ?thesis using "1.prems"(1) by (subst extend_fwd.simps) auto
  qed
qed

lemma find_longest_match_ok:
  assumes b2j: "\<forall>i. \<forall>j\<in>set (b2j_get (b2j m) (seq_a m ! i)). fb j = fa i"
    and eq: "\<forall>i j. seq_a m ! i = seq_b m ! j \<longrightarrow> fa i = fb j"
  shows "best_ok fa fb alo ahi blo bhi (find_longest_match m alo ahi blo bhi)"
proof -
  have init: "best_ok fa fb alo ahi blo bhi (alo, blo, 0)"
    by (simp add: best_ok_def)
  have "best_ok fa fb alo ahi blo bhi
      (snd (outer_loop (seq_a m) (b2j m) blo bhi [alo..<ahi] (Map.empty, alo, blo, 0)))"
    by (rule outer_loop_ok[OF b2j le_refl len_ok_empty init])
  then show ?thesis
    unfolding find_longest_match_def Let_def split_beta
    by (intro extend_fwd_ok[OF eq] extend_back_ok[OF eq])
qed

text \<open>Whatever the index, a block of positive size lies inside the window.\<close>

lemma find_longest_match_range:
  assumes "find_longest_match m alo ahi blo bhi = (i, j, k)" "k \<noteq> 0"
  shows "alo \<le> i \<and> i + k \<le> ahi \<and> blo \<le> j \<and> j + k \<le> bhi"
proof -
  have "best_ok (\<lambda>_. ()) (\<lambda>_. ()) alo ahi blo bhi (find_longest_match m alo ahi blo bhi)"
    by (rule find_longest_match_ok) simp_all
  then show ?thesis using assms by (simp add: best_ok_def)
qed

subsection \<open>What \<open>__chain_b\<close> computes\<close>

definition indices_of :: "'a \<Rightarrow> 'a list \<Rightarrow> nat list" where
  "indices_of x b = filter (\<lambda>i. b ! i = x) [0..<length b]"

definition popular :: "'a list \<Rightarrow> 'a \<Rightarrow> bool" where
  "popular b x \<longleftrightarrow> 200 \<le> length b \<and> length b div 100 + 1 < length (indices_of x b)"

lemma b2j_get_fold:
  "b2j_get (fold b2j_add ps m) x = b2j_get m x @ map fst (filter (\<lambda>p. snd p = x) ps)"
proof (induction ps arbitrary: m)
  case Nil
  then show ?case by simp
next
  case (Cons p ps)
  obtain i e where p: "p = (i, e)" by (cases p)
  have "b2j_get (b2j_add (i, e) m) x = b2j_get m x @ (if e = x then [i] else [])"
    by (simp add: b2j_add_def b2j_get_def)
  then show ?case using Cons.IH[of "b2j_add p m"] p by simp
qed

lemma enumerate_indices:
  "map fst (filter (\<lambda>p. snd p = x) (enumerate 0 b)) = indices_of x b"
proof (induction b rule: rev_induct)
  case Nil
  then show ?case by (simp add: indices_of_def)
next
  case (snoc y b)
  have "filter (\<lambda>i. (b @ [y]) ! i = x) [0..<length b] = filter (\<lambda>i. b ! i = x) [0..<length b]"
    by (rule filter_cong) (auto simp: nth_append)
  then show ?case using snoc
    by (simp add: indices_of_def enumerate_append_eq)
qed

lemma chain_b_get:
  "b2j_get (chain_b b) x = (if popular b x then [] else indices_of x b)"
proof -
  have g: "b2j_get (fold b2j_add (enumerate 0 b) Map.empty) x = indices_of x b"
    unfolding b2j_get_fold enumerate_indices by (simp add: b2j_get_def)
  show ?thesis
  proof (cases "200 \<le> length b")
    case True
    show ?thesis
      using g True unfolding chain_b_def Let_def popular_def b2j_get_def
      by (auto split: option.splits)
  next
    case False
    then show ?thesis using g by (simp add: chain_b_def Let_def popular_def)
  qed
qed

lemma indices_of_nth: "j \<in> set (indices_of x b) \<longleftrightarrow> j < length b \<and> b ! j = x"
  by (auto simp: indices_of_def)

lemma chain_b_nth: "\<forall>x. \<forall>j\<in>set (b2j_get (chain_b b) x). b ! j = x"
  by (simp add: chain_b_get indices_of_nth)

lemma SequenceMatcher_ok:
  "best_ok (nth a) (nth b) alo ahi blo bhi (find_longest_match (SequenceMatcher a b) alo ahi blo bhi)"
  by (rule find_longest_match_ok) (simp_all add: SequenceMatcher_def chain_b_nth)

subsection \<open>\<open>get_matching_blocks\<close> and \<open>ratio\<close>\<close>

text \<open>
  The work list \<open>queue\<close> is used as a stack (\<open>queue.pop()\<close> takes the item appended
  last): here the head of the list is the top, so the two \<open>append\<close> calls put the right
  window before the left one.
\<close>

function blocks_loop ::
  "'a matcher \<Rightarrow> (nat \<times> nat \<times> nat \<times> nat) list \<Rightarrow> (nat \<times> nat \<times> nat) list \<Rightarrow> (nat \<times> nat \<times> nat) list" where
  "blocks_loop m [] matching_blocks = matching_blocks"
| "blocks_loop m ((alo, ahi, blo, bhi) # queue) matching_blocks =
     (case find_longest_match m alo ahi blo bhi of (i, j, k) \<Rightarrow>
        if k \<noteq> 0
        then blocks_loop m
               ((if i + k < ahi \<and> j + k < bhi then [(i + k, ahi, j + k, bhi)] else [])
                @ (if alo < i \<and> blo < j then [(alo, i, blo, j)] else []) @ queue)
               (matching_blocks @ [(i, j, k)])
        else blocks_loop m queue matching_blocks)"
  by pat_completeness auto
termination
  apply (relation "measure (\<lambda>(m, queue, mb). sum_list (map (\<lambda>(alo, ahi, blo, bhi). Suc (2 * (ahi - alo))) queue))")
  apply simp
  subgoal
    apply (frule sym)
    apply (auto dest!: find_longest_match_range)
    done
  subgoal by simp
  done

text \<open>
  The loop that merges adjacent blocks, with state \<open>(i1, j1, k1, non_adjacent)\<close>, and
  the rest of \<open>get_matching_blocks\<close>: the sort, the last pending block and the final
  dummy \<open>(la, lb, 0)\<close>. A fresh matcher has no cached \<open>matching_blocks\<close>.
\<close>

fun collapse ::
  "(nat \<times> nat \<times> nat) list \<Rightarrow> nat \<times> nat \<times> nat \<times> (nat \<times> nat \<times> nat) list
     \<Rightarrow> nat \<times> nat \<times> nat \<times> (nat \<times> nat \<times> nat) list" where
  "collapse [] st = st"
| "collapse ((i2, j2, k2) # rest) (i1, j1, k1, non_adjacent) =
     (if i1 + k1 = i2 \<and> j1 + k1 = j2
      then collapse rest (i1, j1, k1 + k2, non_adjacent)
      else collapse rest (i2, j2, k2, if k1 \<noteq> 0 then non_adjacent @ [(i1, j1, k1)] else non_adjacent))"

definition get_matching_blocks :: "'a matcher \<Rightarrow> (nat \<times> nat \<times> nat) list" where
  "get_matching_blocks m =
     (let la = length (seq_a m); lb = length (seq_b m);
          matching_blocks = sort (blocks_loop m [(0, la, 0, lb)] []);
          (i1, j1, k1, non_adjacent) = collapse matching_blocks (0, 0, 0, []);
          non_adjacent = (if k1 \<noteq> 0 then non_adjacent @ [(i1, j1, k1)] else non_adjacent)
      in non_adjacent @ [(la, lb, 0)])"

text \<open>
  \<open>_calculate_ratio\<close> and \<open>ratio\<close>. Python computes \<open>2.0 * matches / length\<close> in
  double precision; the quotient is taken here in the rationals. For \<open>length\<close> below
  \<open>2^53\<close> the comparison of the double with \<open>1\<close> agrees with the exact one (the
  division is correctly rounded and \<open>1 - 2^-53\<close> is a double).
\<close>

definition calculate_ratio :: "nat \<Rightarrow> nat \<Rightarrow> rat" where
  "calculate_ratio matches len = (if len \<noteq> 0 then 2 * of_nat matches / of_nat len else 1)"

definition ratio :: "'a matcher \<Rightarrow> rat" where
  "ratio m =
     calculate_ratio (sum_list (map (\<lambda>(i, j, k). k) (get_matching_blocks m)))
       (length (seq_a m) + length (seq_b m))"

subsection \<open>The number of matches\<close>

abbreviation total :: "(nat \<times> nat \<times> nat) list \<Rightarrow> nat" where
  "total blocks \<equiv> sum_list (map (\<lambda>(i, j, k). k) blocks)"

lemma collapse_total:
  "collapse rest (i1, j1, k1, na) = (i, j, k, na') \<Longrightarrow> k + total na' = k1 + total na + total rest"
proof (induction rest arbitrary: i1 j1 k1 na)
  case Nil
  then show ?case by simp
next
  case (Cons blk rest)
  obtain i2 j2 k2 where blk: "blk = (i2, j2, k2)" by (cases blk) auto
  show ?case
  proof (cases "i1 + k1 = i2 \<and> j1 + k1 = j2")
    case True
    then have "collapse rest (i1, j1, k1 + k2, na) = (i, j, k, na')"
      using Cons.prems blk by simp
    from Cons.IH[OF this] show ?thesis using blk by simp
  next
    case False
    then have "collapse rest (i2, j2, k2, if k1 \<noteq> 0 then na @ [(i1, j1, k1)] else na) = (i, j, k, na')"
      using Cons.prems blk by auto
    from Cons.IH[OF this] show ?thesis using blk by auto
  qed
qed

lemma total_insort: "total (insort blk blocks) = total [blk] + total blocks"
  by (induction blocks) auto

lemma total_sort: "total (sort blocks) = total blocks"
  by (induction blocks) (auto simp: total_insort)

lemma get_matching_blocks_total:
  "total (get_matching_blocks m)
     = total (blocks_loop m [(0, length (seq_a m), 0, length (seq_b m))] [])"
proof -
  let ?mb = "sort (blocks_loop m [(0, length (seq_a m), 0, length (seq_b m))] [])"
  obtain i j k na where c: "collapse ?mb (0, 0, 0, []) = (i, j, k, na)"
    by (metis prod_cases4)
  from collapse_total[OF c] have "k + total na = total ?mb" by simp
  then have "total (if k \<noteq> 0 then na @ [(i, j, k)] else na) = total ?mb" by auto
  then show ?thesis
    unfolding get_matching_blocks_def Let_def c by (simp add: total_sort)
qed

subsection \<open>The matches fill the windows only when the slices are equal\<close>

text \<open>
  \<open>win\<close> adds the lengths of the windows still on the work list, on both sides;
  \<open>same_slice\<close> says that a window has the same elements on both sides.
\<close>

definition win :: "(nat \<times> nat \<times> nat \<times> nat) list \<Rightarrow> nat" where
  "win queue = sum_list (map (\<lambda>(alo, ahi, blo, bhi). (ahi - alo) + (bhi - blo)) queue)"

definition same_slice :: "'a list \<Rightarrow> 'a list \<Rightarrow> nat \<times> nat \<times> nat \<times> nat \<Rightarrow> bool" where
  "same_slice a b = (\<lambda>(alo, ahi, blo, bhi).
     ahi - alo = bhi - blo \<and> (\<forall>t < ahi - alo. a ! (alo + t) = b ! (blo + t)))"

lemma win_simps [simp]:
  "win [] = 0"
  "win ((alo, ahi, blo, bhi) # queue) = (ahi - alo) + (bhi - blo) + win queue"
  "win (xs @ ys) = win xs + win ys"
  by (simp_all add: win_def)

lemma blocks_loop_step:
  assumes "find_longest_match m alo ahi blo bhi = (i, j, k)"
  shows "blocks_loop m ((alo, ahi, blo, bhi) # queue) mb =
     (if k \<noteq> 0
      then blocks_loop m
             ((if i + k < ahi \<and> j + k < bhi then [(i + k, ahi, j + k, bhi)] else [])
              @ (if alo < i \<and> blo < j then [(alo, i, blo, j)] else []) @ queue)
             (mb @ [(i, j, k)])
      else blocks_loop m queue mb)"
  using assms by simp

lemma blocks_loop_bound: "2 * total (blocks_loop m queue mb) \<le> 2 * total mb + win queue"
proof (induction m queue mb rule: blocks_loop.induct)
  case (1 m mb)
  then show ?case by simp
next
  case (2 m alo ahi blo bhi queue mb)
  obtain i j k where f: "find_longest_match m alo ahi blo bhi = (i, j, k)"
    by (metis prod_cases3)
  show ?case
  proof (cases "k = 0")
    case True
    have "2 * total (blocks_loop m queue mb) \<le> 2 * total mb + win queue"
      using "2.IH"(2)[OF f[symmetric] refl] True by simp
    then show ?thesis unfolding blocks_loop_step[OF f] using True by simp
  next
    case False
    let ?q = "(if i + k < ahi \<and> j + k < bhi then [(i + k, ahi, j + k, bhi)] else [])
              @ (if alo < i \<and> blo < j then [(alo, i, blo, j)] else []) @ queue"
    have r: "alo \<le> i \<and> i + k \<le> ahi \<and> blo \<le> j \<and> j + k \<le> bhi"
      by (rule find_longest_match_range[OF f False])
    have ih: "2 * total (blocks_loop m ?q (mb @ [(i, j, k)])) \<le> 2 * total (mb @ [(i, j, k)]) + win ?q"
      by (rule "2.IH"(1)[OF f[symmetric] refl False])
    have "win ?q + 2 * k \<le> (ahi - alo) + (bhi - blo) + win queue"
      using r by auto
    then show ?thesis unfolding blocks_loop_step[OF f] using False ih by simp
  qed
qed

lemma blocks_loop_tight:
  "2 * total (blocks_loop m queue mb) = 2 * total mb + win queue
    \<Longrightarrow> (\<And>alo ahi blo bhi.
          best_ok (nth a) (nth b) alo ahi blo bhi (find_longest_match m alo ahi blo bhi))
    \<Longrightarrow> \<forall>e\<in>set queue. same_slice a b e"
proof (induction m queue mb rule: blocks_loop.induct)
  case (1 m mb)
  then show ?case by simp
next
  case (2 m alo ahi blo bhi queue mb)
  obtain i j k where f: "find_longest_match m alo ahi blo bhi = (i, j, k)"
    by (metis prod_cases3)
  show ?case
  proof (cases "k = 0")
    case True
    have eq: "2 * total (blocks_loop m queue mb) = 2 * total mb + (ahi - alo) + (bhi - blo) + win queue"
      using "2.prems"(1) True unfolding blocks_loop_step[OF f] by simp
    with blocks_loop_bound[of m queue mb]
    have z: "ahi - alo = 0" "bhi - blo = 0" and eq': "2 * total (blocks_loop m queue mb) = 2 * total mb + win queue"
      by auto
    have "\<forall>e\<in>set queue. same_slice a b e"
      using "2.IH"(2)[OF f[symmetric] refl _ eq' "2.prems"(2)] True by simp
    moreover have "same_slice a b (alo, ahi, blo, bhi)"
      using z by (simp add: same_slice_def)
    ultimately show ?thesis by simp
  next
    case False
    let ?R = "if i + k < ahi \<and> j + k < bhi then [(i + k, ahi, j + k, bhi)] else []"
    let ?L = "if alo < i \<and> blo < j then [(alo, i, blo, j)] else []"
    let ?q = "?R @ ?L @ queue"
    have r: "alo \<le> i \<and> i + k \<le> ahi \<and> blo \<le> j \<and> j + k \<le> bhi"
      by (rule find_longest_match_range[OF f False])
    have mt: "\<forall>t<k. a ! (i + t) = b ! (j + t)"
      using "2.prems"(2)[of alo ahi blo bhi] unfolding f by (simp add: best_ok_def)
    have eq: "2 * total (blocks_loop m ?q (mb @ [(i, j, k)]))
        = 2 * total mb + (ahi - alo) + (bhi - blo) + win queue"
      using "2.prems"(1) False unfolding blocks_loop_step[OF f] by simp
    have bd: "2 * total (blocks_loop m ?q (mb @ [(i, j, k)])) \<le> 2 * total (mb @ [(i, j, k)]) + win ?q"
      by (rule blocks_loop_bound)
    have wR: "win ?R \<le> (ahi - (i + k)) + (bhi - (j + k))" by simp
    have wL: "win ?L \<le> (i - alo) + (j - blo)" by simp
    have sum: "(ahi - (i + k)) + (bhi - (j + k)) + ((i - alo) + (j - blo)) + 2 * k
        = (ahi - alo) + (bhi - blo)"
      using r by simp
    have tm: "total (mb @ [(i, j, k)]) = total mb + k" by simp
    have wq: "win ?q = win ?R + win ?L + win queue" by (simp only: win_simps(3) add.assoc)
    have tight: "win ?R = (ahi - (i + k)) + (bhi - (j + k))" "win ?L = (i - alo) + (j - blo)"
      using eq bd wR wL sum tm wq by linarith+
    have eq': "2 * total (blocks_loop m ?q (mb @ [(i, j, k)])) = 2 * total (mb @ [(i, j, k)]) + win ?q"
      using eq bd wR wL sum tm wq by linarith
    have all: "\<forall>e\<in>set ?q. same_slice a b e"
      by (rule "2.IH"(1)[OF f[symmetric] refl False eq' "2.prems"(2)])
    have left: "same_slice a b (alo, i, blo, j)"
    proof (cases "alo < i \<and> blo < j")
      case True
      then show ?thesis using all by simp
    next
      case False
      then have "win ?L = 0" by auto
      then have "(i - alo) + (j - blo) = 0" using tight(2) by simp
      then show ?thesis by (simp add: same_slice_def)
    qed
    have right: "same_slice a b (i + k, ahi, j + k, bhi)"
    proof (cases "i + k < ahi \<and> j + k < bhi")
      case True
      then show ?thesis using all by simp
    next
      case False
      then have "win ?R = 0" by auto
      then have "(ahi - (i + k)) + (bhi - (j + k)) = 0" using tight(1) by simp
      then show ?thesis by (simp add: same_slice_def)
    qed
    have len: "i - alo = j - blo" "ahi - (i + k) = bhi - (j + k)"
      using left right by (simp_all add: same_slice_def)
    have "a ! (alo + t) = b ! (blo + t)" if t: "t < ahi - alo" for t
    proof -
      consider "t < i - alo" | "i - alo \<le> t" "t < i - alo + k" | "i - alo + k \<le> t" by linarith
      then show ?thesis
      proof cases
        case 1
        then show ?thesis using left by (simp add: same_slice_def)
      next
        case 2
        then have "t - (i - alo) < k" by linarith
        then have "a ! (i + (t - (i - alo))) = b ! (j + (t - (i - alo)))" using mt by blast
        moreover have "i + (t - (i - alo)) = alo + t" using 2 r by simp
        moreover have "j + (t - (i - alo)) = blo + t" using 2 r len by simp
        ultimately show ?thesis by metis
      next
        case 3
        let ?s = "t - (i - alo + k)"
        have "?s < ahi - (i + k)" using 3 t r by simp
        then have "a ! (i + k + ?s) = b ! (j + k + ?s)" using right unfolding same_slice_def by blast
        moreover have "i + k + ?s = alo + t" using 3 r by simp
        moreover have "j + k + ?s = blo + t" using 3 r len by simp
        ultimately show ?thesis by metis
      qed
    qed
    moreover have "ahi - alo = bhi - blo" using len r by linarith
    ultimately have "same_slice a b (alo, ahi, blo, bhi)" by (simp add: same_slice_def)
    moreover have "\<forall>e\<in>set queue. same_slice a b e" using all by simp
    ultimately show ?thesis by simp
  qed
qed

lemma seq_SequenceMatcher [simp]:
  "seq_a (SequenceMatcher a b) = a" "seq_b (SequenceMatcher a b) = b"
  "b2j (SequenceMatcher a b) = chain_b b" "bjunk (SequenceMatcher a b) = {}"
  by (simp_all add: SequenceMatcher_def)

lemma ratio_total:
  "ratio (SequenceMatcher a b)
     = calculate_ratio (total (blocks_loop (SequenceMatcher a b) [(0, length a, 0, length b)] []))
         (length a + length b)"
  using get_matching_blocks_total[of "SequenceMatcher a b"] by (simp add: ratio_def)

lemma ratio_not_less_1_equal:
  assumes "\<not> ratio (SequenceMatcher a b) < 1"
  shows "a = b"
proof (cases "length a + length b = 0")
  case True
  then show ?thesis by simp
next
  case False
  let ?m = "SequenceMatcher a b"
  let ?M = "total (blocks_loop ?m [(0, length a, 0, length b)] [])"
  have bd: "2 * ?M \<le> length a + length b"
    using blocks_loop_bound[of ?m "[(0, length a, 0, length b)]" "[]"] by simp
  have "1 \<le> 2 * rat_of_nat ?M / rat_of_nat (length a + length b)"
    using assms False unfolding ratio_total calculate_ratio_def by simp
  then have "rat_of_nat (length a + length b) \<le> rat_of_nat (2 * ?M)"
    using False by (simp add: le_divide_eq)
  then have "length a + length b \<le> 2 * ?M"
    using of_nat_le_iff by blast
  with bd have "2 * ?M = 2 * total [] + win [(0, length a, 0, length b)]" by simp
  from blocks_loop_tight[OF this SequenceMatcher_ok]
  have "same_slice a b (0, length a, 0, length b)" by simp
  then have "length a = length b" "\<forall>t<length a. a ! t = b ! t"
    by (simp_all add: same_slice_def)
  then show ?thesis by (simp add: nth_equalityI)
qed

subsection \<open>Equal sequences: the block found is the whole diagonal\<close>

text \<open>
  With \<open>a = b\<close> the popular elements are missing from \<open>b2j\<close>, so the first loop of
  \<open>find_longest_match\<close> only sees runs of elements that are not popular. \<open>run a k\<close>
  is the length of such a run ending just before index \<open>k\<close>. The proofs show that the
  best block of the first loop always starts at the same index in \<open>a\<close> and in \<open>b\<close>;
  the extension loops then reach both ends.
\<close>

definition run :: "'a list \<Rightarrow> nat \<Rightarrow> nat" where
  "run a k = length (takeWhile (\<lambda>x. \<not> popular a x) (rev (take k a)))"

definition diag_ok :: "'a list \<Rightarrow> nat \<Rightarrow> (nat \<rightharpoonup> nat) \<Rightarrow> bool" where
  "diag_ok a i j2len \<longleftrightarrow>
     (\<forall>j v. j2len j = Some v \<longrightarrow> v \<le> run a i \<and> v \<le> run a (Suc j))
     \<and> (0 < i \<longrightarrow> (case j2len (i - 1) of Some v \<Rightarrow> v = run a i | None \<Rightarrow> run a i = 0))"

lemma run_0 [simp]: "run a 0 = 0"
  by (simp add: run_def)

lemma run_Suc:
  "k < length a \<Longrightarrow> run a (Suc k) = (if popular a (a ! k) then 0 else Suc (run a k))"
  by (simp add: run_def take_Suc_conv_app_nth)

lemma diag_ok_empty: "diag_ok a 0 Map.empty"
  by (simp add: diag_ok_def)

lemma diag_j2lenget:
  assumes "diag_ok a i j2len"
  shows "j2lenget j2len i = run a i" "j2lenget j2len j \<le> run a i" "j2lenget j2len j \<le> run a j"
proof -
  show "j2lenget j2len i = run a i"
    using assms by (cases "i = 0") (auto simp: diag_ok_def j2lenget_def split: option.splits)
  show "j2lenget j2len j \<le> run a i"
    using assms by (auto simp: diag_ok_def j2lenget_def split: option.splits)
  show "j2lenget j2len j \<le> run a j"
  proof (cases "j = 0")
    case True
    then show ?thesis by (simp add: j2lenget_def)
  next
    case False
    show ?thesis
    proof (cases "j2len (j - 1)")
      case None
      then show ?thesis using False by (simp add: j2lenget_def)
    next
      case (Some v)
      then have "v \<le> run a (Suc (j - 1))" using assms unfolding diag_ok_def by blast
      then show ?thesis using False Some by (simp add: j2lenget_def)
    qed
  qed
qed

lemma inner_loop_diag:
  assumes prev: "diag_ok a i j2len" and i: "i < length a" and np: "\<not> popular a (a ! i)"
  shows "sorted js \<Longrightarrow> \<forall>j\<in>set js. j < length a \<and> a ! j = a ! i
    \<Longrightarrow> \<forall>j v. newj2len j = Some v \<longrightarrow> v \<le> run a (Suc i) \<and> v \<le> run a (Suc j)
    \<Longrightarrow> besti = bestj
    \<Longrightarrow> \<forall>k\<le>i. run a k \<le> bestsize
    \<Longrightarrow> i \<in> set js \<or> (newj2len i = Some (run a (Suc i)) \<and> run a (Suc i) \<le> bestsize)
    \<Longrightarrow> (case inner_loop i 0 (length a) j2len js (newj2len, besti, bestj, bestsize) of
          (new, bi, bj, bs) \<Rightarrow> diag_ok a (Suc i) new \<and> bi = bj \<and> (\<forall>k\<le>Suc i. run a k \<le> bs))"
proof (induction js arbitrary: newj2len besti bestj bestsize)
  case Nil
  then have "newj2len i = Some (run a (Suc i))" "run a (Suc i) \<le> bestsize" by auto
  then show ?case using Nil.prems(3,4,5) by (auto simp: diag_ok_def le_Suc_eq)
next
  case (Cons j js)
  let ?k = "j2lenget j2len j + 1"
  have j: "j < length a" "a ! j = a ! i" using Cons.prems(2) by auto
  have srt: "sorted js" and ge: "\<forall>x\<in>set js. j \<le> x" using Cons.prems(1) by auto
  have rest: "\<forall>j\<in>set js. j < length a \<and> a ! j = a ! i" using Cons.prems(2) by auto
  have ri: "run a (Suc i) = Suc (run a i)" using run_Suc[OF i] np by simp
  have rj: "run a (Suc j) = Suc (run a j)" using run_Suc[OF j(1)] np j(2) by simp
  have k1: "?k \<le> run a (Suc i)" using diag_j2lenget(2)[OF prev, of j] ri by simp
  have k2: "?k \<le> run a (Suc j)" using diag_j2lenget(3)[OF prev, of j] rj by simp
  have ki: "j = i \<Longrightarrow> ?k = run a (Suc i)" using diag_j2lenget(1)[OF prev] ri by simp
  have new: "\<forall>ja v. (newj2len(j \<mapsto> ?k)) ja = Some v \<longrightarrow> v \<le> run a (Suc i) \<and> v \<le> run a (Suc ja)"
    using Cons.prems(3) k1 k2 by auto
  show ?case
  proof (cases "bestsize < ?k")
    case True
    have ji: "j = i"
    proof (rule ccontr)
      assume "j \<noteq> i"
      then consider "j < i" | "i < j" by linarith
      then show False
      proof cases
        case 1
        then have "run a (Suc j) \<le> bestsize" using Cons.prems(5) by simp
        then show False using k2 True by simp
      next
        case 2
        then have "i \<notin> set (j # js)" using ge by auto
        then have "run a (Suc i) \<le> bestsize" using Cons.prems(6) by simp
        then show False using k1 True by simp
      qed
    qed
    have eq: "inner_loop i 0 (length a) j2len (j # js) (newj2len, besti, bestj, bestsize)
        = inner_loop i 0 (length a) j2len js (newj2len(j \<mapsto> ?k), i + 1 - ?k, j + 1 - ?k, ?k)"
      using True j(1) by (simp add: Let_def)
    have b3: "\<forall>k\<le>i. run a k \<le> ?k" using Cons.prems(5) True by (meson le_trans less_imp_le)
    have b4: "i \<in> set js \<or> ((newj2len(j \<mapsto> ?k)) i = Some (run a (Suc i)) \<and> run a (Suc i) \<le> ?k)"
      using ji ki by simp
    have b2: "i + 1 - ?k = j + 1 - ?k" using ji by simp
    show ?thesis unfolding eq by (rule Cons.IH[OF srt rest new b2 b3 b4])
  next
    case False
    have eq: "inner_loop i 0 (length a) j2len (j # js) (newj2len, besti, bestj, bestsize)
        = inner_loop i 0 (length a) j2len js (newj2len(j \<mapsto> ?k), besti, bestj, bestsize)"
      using False j(1) by (simp add: Let_def)
    have b4: "i \<in> set js \<or> ((newj2len(j \<mapsto> ?k)) i = Some (run a (Suc i)) \<and> run a (Suc i) \<le> bestsize)"
    proof (cases "j = i")
      case True
      then show ?thesis using ki False by simp
    next
      case ne: False
      then show ?thesis using Cons.prems(6) by auto
    qed
    show ?thesis unfolding eq by (rule Cons.IH[OF srt rest new Cons.prems(4) Cons.prems(5) b4])
  qed
qed

lemma sorted_indices_of: "sorted (indices_of x a)"
  by (simp add: indices_of_def sorted_wrt_filter)

lemma outer_loop_diag:
  "i \<le> length a \<Longrightarrow> diag_ok a i j2len \<Longrightarrow> besti = bestj \<Longrightarrow> \<forall>k\<le>i. run a k \<le> bestsize
    \<Longrightarrow> (case outer_loop a (chain_b a) 0 (length a) [i..<length a] (j2len, besti, bestj, bestsize) of
          (new, bi, bj, bs) \<Rightarrow> bi = bj)"
proof (induction "length a - i" arbitrary: i j2len besti bestj bestsize)
  case 0
  then show ?case by simp
next
  case (Suc n)
  have lt: "i < length a" using Suc.hyps(2) by simp
  let ?js = "b2j_get (chain_b a) (a ! i)"
  let ?st = "inner_loop i 0 (length a) j2len ?js (Map.empty, besti, bestj, bestsize)"
  obtain new bi bj bs where st: "?st = (new, bi, bj, bs)" by (metis prod_cases4)
  have inv: "diag_ok a (Suc i) new \<and> bi = bj \<and> (\<forall>k\<le>Suc i. run a k \<le> bs)"
  proof (cases "popular a (a ! i)")
    case True
    then have "?st = (Map.empty, besti, bestj, bestsize)" by (simp add: chain_b_get)
    then have "new = Map.empty" "bi = besti" "bj = bestj" "bs = bestsize" using st by simp_all
    moreover have "run a (Suc i) = 0" using run_Suc[OF lt] True by simp
    ultimately show ?thesis using Suc.prems(3,4) by (auto simp: diag_ok_def le_Suc_eq)
  next
    case False
    have js: "?js = indices_of (a ! i) a" using False by (simp add: chain_b_get)
    have "case inner_loop i 0 (length a) j2len ?js (Map.empty, besti, bestj, bestsize) of
          (new, bi, bj, bs) \<Rightarrow> diag_ok a (Suc i) new \<and> bi = bj \<and> (\<forall>k\<le>Suc i. run a k \<le> bs)"
    proof (rule inner_loop_diag[OF Suc.prems(2) lt False _ _ _ Suc.prems(3) Suc.prems(4)])
      show "sorted ?js" unfolding js by (rule sorted_indices_of)
      show "\<forall>j\<in>set ?js. j < length a \<and> a ! j = a ! i" unfolding js by (simp add: indices_of_nth)
      show "\<forall>j v. Map.empty j = Some v \<longrightarrow> v \<le> run a (Suc i) \<and> v \<le> run a (Suc j)" by simp
      show "i \<in> set ?js \<or> (Map.empty i = Some (run a (Suc i)) \<and> run a (Suc i) \<le> bestsize)"
        unfolding js using lt by (simp add: indices_of_nth)
    qed
    then show ?thesis unfolding st by simp
  qed
  have eq: "outer_loop a (chain_b a) 0 (length a) [i..<length a] (j2len, besti, bestj, bestsize)
      = outer_loop a (chain_b a) 0 (length a) [Suc i..<length a] (new, bi, bj, bs)"
    using lt st by (simp add: upt_conv_Cons)
  have n: "n = length a - Suc i" using Suc.hyps(2) by simp
  show ?case unfolding eq
    using Suc.hyps(1)[OF n _ conjunct1[OF inv] conjunct1[OF conjunct2[OF inv]] conjunct2[OF conjunct2[OF inv]]] lt
    by simp
qed

lemma extend_back_all:
  "extend_back a a (\<lambda>x. True) 0 0 (d, d, s) = (0, 0, s + d)"
proof (induction d arbitrary: s)
  case 0
  then show ?case by (subst extend_back.simps) simp
next
  case (Suc d)
  show ?case using Suc[of "s + 1"] by (subst extend_back.simps) simp
qed

lemma extend_fwd_all:
  "s \<le> n \<Longrightarrow> extend_fwd a a (\<lambda>x. True) n n (0, 0, s) = (0, 0, n)"
proof (induction "n - s" arbitrary: s)
  case 0
  then show ?case by (subst extend_fwd.simps) simp
next
  case (Suc k)
  then have "extend_fwd a a (\<lambda>x. True) n n (0, 0, s + 1) = (0, 0, n)" by simp
  moreover have "s < n" using Suc.hyps(2) by simp
  ultimately show ?case by (subst extend_fwd.simps) simp
qed

lemma extend_back_none: "extend_back a b (\<lambda>x. False) alo blo best = best"
  by (cases best) (simp add: extend_back.simps)

lemma extend_fwd_none: "extend_fwd a b (\<lambda>x. False) ahi bhi best = best"
  by (cases best) (simp add: extend_fwd.simps)

lemma find_longest_match_same:
  "find_longest_match (SequenceMatcher a a) 0 (length a) 0 (length a) = (0, 0, length a)"
proof -
  let ?st = "outer_loop a (chain_b a) 0 (length a) [0..<length a] (Map.empty, 0, 0, 0)"
  obtain new d d' s where st: "?st = (new, d, d', s)" by (metis prod_cases4)
  have "case ?st of (new, bi, bj, bs) \<Rightarrow> bi = bj"
    by (rule outer_loop_diag[OF _ diag_ok_empty]) simp_all
  then have dd: "d' = d" using st by simp
  have "best_ok (nth a) (nth a) 0 (length a) 0 (length a) (snd ?st)"
    by (rule outer_loop_ok[OF _ le_refl len_ok_empty]) (simp_all add: chain_b_nth best_ok_def)
  then have le: "s + d \<le> length a" using st dd by (auto simp: best_ok_def split: if_splits)
  show ?thesis
    unfolding find_longest_match_def Let_def
    by (simp add: st dd extend_back_none extend_fwd_none extend_back_all extend_fwd_all[OF le])
qed

lemma ratio_same: "ratio (SequenceMatcher a a) = 1"
proof -
  have "blocks_loop (SequenceMatcher a a) [(0, length a, 0, length a)] []
      = (if length a \<noteq> 0 then [(0, 0, length a)] else [])"
    unfolding blocks_loop_step[OF find_longest_match_same] by simp
  then show ?thesis
    unfolding ratio_total by (simp add: calculate_ratio_def)
qed

lemma ratio_less_1_iff: "ratio (SequenceMatcher a b) < 1 \<longleftrightarrow> a \<noteq> b"
  using ratio_same[of a] ratio_not_less_1_equal[of a b] by auto

section \<open>Text: whitespace and lines\<close>

text \<open>
  A Python \<open>str\<close> is modelled as a \<open>string\<close>; a \<open>char\<close> stands for the code point of
  the same number, so the model covers text whose code points are below 256.
  \<open>isspace\<close> lists the code points that \<open>str.strip()\<close> removes, \<open>is_linebreak\<close> those
  at which \<open>str.splitlines()\<close> splits (\<open>\n \v \f \r \x1c \x1d \x1e \x85\<close>).
\<close>

abbreviation LF :: char where "LF \<equiv> CHR 0x0A"
abbreviation CR :: char where "CR \<equiv> CHR 0x0D"

definition isspace :: "char \<Rightarrow> bool" where
  "isspace c \<longleftrightarrow> c \<in> set [CHR 0x09, LF, CHR 0x0B, CHR 0x0C, CR, CHR 0x1C, CHR 0x1D, CHR 0x1E,
                       CHR 0x1F, CHR 0x20, CHR 0x85, CHR 0xA0]"

definition is_linebreak :: "char \<Rightarrow> bool" where
  "is_linebreak c \<longleftrightarrow> c \<in> set [LF, CHR 0x0B, CHR 0x0C, CR, CHR 0x1C, CHR 0x1D, CHR 0x1E, CHR 0x85]"

definition strip :: "string \<Rightarrow> string" where
  "strip s = rev (dropWhile isspace (rev (dropWhile isspace s)))"

text \<open>
  \<open>str.splitlines()\<close>: the line ends are dropped, \<open>\r\n\<close> is one line end, and a
  string that ends with a line end has no empty last line. \<open>cur\<close> is the line being read.
\<close>

fun splitlines_from :: "string \<Rightarrow> string \<Rightarrow> string list" where
  "splitlines_from cur [] = (if cur = [] then [] else [cur])"
| "splitlines_from cur [c] = (if is_linebreak c then [cur] else [cur @ [c]])"
| "splitlines_from cur (c # d # s) =
     (if c = CR \<and> d = LF then cur # splitlines_from [] s
      else if is_linebreak c then cur # splitlines_from [] (d # s)
      else splitlines_from (cur @ [c]) (d # s))"

definition splitlines :: "string \<Rightarrow> string list" where
  "splitlines s = splitlines_from [] s"

text \<open>
  Reading a file opened with mode \<open>'rt'\<close>: universal newlines turn \<open>\r\n\<close> and \<open>\r\<close>
  into \<open>\n\<close>, and iterating the file yields the lines with their \<open>\n\<close>.
\<close>

fun universal_newlines :: "string \<Rightarrow> string" where
  "universal_newlines [] = []"
| "universal_newlines [c] = (if c = CR then [LF] else [c])"
| "universal_newlines (c # d # s) =
     (if c = CR \<and> d = LF then LF # universal_newlines s
      else if c = CR then LF # universal_newlines (d # s)
      else c # universal_newlines (d # s))"

fun lines_from :: "string \<Rightarrow> string \<Rightarrow> string list" where
  "lines_from cur [] = (if cur = [] then [] else [cur])"
| "lines_from cur (c # s) =
     (if c = LF then (cur @ [c]) # lines_from [] s else lines_from (cur @ [c]) s)"

definition readlines :: "string \<Rightarrow> string list" where
  "readlines contents = lines_from [] (universal_newlines contents)"

section \<open>The file system and the change-aware write\<close>

text \<open>
  The world the writer acts on. \<open>files\<close> maps the path of a regular file to its text
  (POSIX: writing in mode \<open>'wt'\<close> stores the text as it is). Two path strings name two
  files; directories, permissions and I/O errors are not modelled, so every \<open>open\<close>
  succeeds. \<open>writes\<close> logs the paths opened for writing, in order: an unchanged log
  means that no file was written. \<open>gens\<close> holds, for every generator object, the lines
  it has not yielded yet, and \<open>next_gen\<close> is the next unused generator identity.
\<close>

record world =
  files :: "string \<rightharpoonup> string"
  writes :: "string list"
  gens :: "nat \<Rightarrow> string list"
  next_gen :: nat

text \<open>\<open>files_are_different(rfp, new_rfp)\<close>; \<open>rfp\<close> is given as the lines the file yields.\<close>

definition files_are_different :: "string list \<Rightarrow> string list \<Rightarrow> bool" where
  "files_are_different rfp new_rfp =
     (let old_file_lines = map strip rfp;
          new_file_lines = map strip new_rfp
      in ratio (SequenceMatcher old_file_lines new_file_lines) < 1)"

text \<open>\<open>with open(fname, 'wt') as wfp: wfp.write(new_file_string)\<close>\<close>

definition write_text :: "string \<Rightarrow> string \<Rightarrow> world \<Rightarrow> world" where
  "write_text fname new_file_string w =
     w\<lparr>files := (files w)(fname \<mapsto> new_file_string), writes := writes w @ [fname]\<rparr>"

definition write_if_different :: "string \<Rightarrow> string \<Rightarrow> world \<Rightarrow> world" where
  "write_if_different fname new_file_string w =
     (let should_write =
            (case files w fname of
               None \<Rightarrow> True
             | Some contents \<Rightarrow> files_are_different (readlines contents) (splitlines new_file_string))
      in if should_write then write_text fname new_file_string w else w)"

lemma files_are_different_iff:
  "files_are_different rfp new_rfp \<longleftrightarrow> map strip rfp \<noteq> map strip new_rfp"
  by (simp add: files_are_different_def ratio_less_1_iff)

text \<open>
  C2. The change test of \<open>files_are_different\<close>, the ratio of the sequence matcher on
  the two lists of stripped lines being below 1, holds exactly when the two lists of
  stripped lines are not equal.
\<close>

theorem ratio_test_is_trimmed_inequality:
  "(ratio (SequenceMatcher (map strip rfp) (map strip new_rfp)) < 1)
     = (map strip rfp \<noteq> map strip new_rfp)
   \<and> files_are_different rfp new_rfp = (map strip rfp \<noteq> map strip new_rfp)"
  by (simp add: ratio_less_1_iff files_are_different_iff)

subsection \<open>Texts given line by line\<close>

text \<open>
  To speak of two texts that differ only in the white space around their lines, a text
  is built from its lines: \<open>text_of eol ls\<close> is the text whose lines are \<open>ls\<close>, each
  followed by the line end \<open>eol\<close>. A line is \<open>plain\<close> when it contains no character at
  which \<open>str.splitlines\<close> splits. These two are not part of the program; they only
  describe its inputs.
\<close>

definition plain :: "string \<Rightarrow> bool" where
  "plain l \<longleftrightarrow> \<not> list_ex is_linebreak l"

definition text_of :: "string \<Rightarrow> string list \<Rightarrow> string" where
  "text_of eol ls = concat (map (\<lambda>l. l @ eol) ls)"

lemma plain_Nil [simp]: "plain []"
  by (simp add: plain_def)

lemma plain_Cons [simp]: "plain (c # l) \<longleftrightarrow> \<not> is_linebreak c \<and> plain l"
  by (simp add: plain_def)

lemma is_linebreak_LF [simp]: "is_linebreak LF"
  by (simp add: is_linebreak_def)

lemma is_linebreak_CR [simp]: "is_linebreak CR"
  by (simp add: is_linebreak_def)

lemma splitlines_from_plain_char:
  "\<not> is_linebreak c \<Longrightarrow> splitlines_from cur (c # s) = splitlines_from (cur @ [c]) s"
  by (cases s) auto

lemma splitlines_from_LF: "splitlines_from cur (LF # s) = cur # splitlines_from [] s"
  by (cases s) auto

lemma splitlines_from_plain_line:
  "plain l \<Longrightarrow> splitlines_from cur (l @ LF # s) = (cur @ l) # splitlines_from [] s"
proof (induction l arbitrary: cur)
  case Nil
  then show ?case by (simp add: splitlines_from_LF)
next
  case (Cons c l)
  then show ?case by (simp add: splitlines_from_plain_char)
qed


lemma isspace_LF [simp]: "isspace LF"
  by (simp add: isspace_def)














section \<open>Paths\<close>

text \<open>
  \<open>os.path\<close> on POSIX. \<open>rfind\<close> is \<open>str.rfind\<close> for one character: the last index, or
  \<open>-1\<close>. \<open>splitext\<close> is \<open>genericpath._splitext\<close> with \<open>sep = '/'\<close>, no \<open>altsep\<close> and
  \<open>extsep = '.'\<close>; its \<open>while\<close> loop looks for a character that is not a dot between
  the last separator and the last dot.
\<close>

definition rfind :: "char \<Rightarrow> string \<Rightarrow> int" where
  "rfind c p = fold (\<lambda>(i, x) found. if x = c then int i else found) (enumerate 0 p) (- 1)"

definition splitext :: "string \<Rightarrow> string \<times> string" where
  "splitext p =
     (let sepIndex = rfind (CHR ''/'') p;
          dotIndex = rfind (CHR ''.'') p
      in if sepIndex < dotIndex
            \<and> list_ex (\<lambda>filenameIndex. p ! nat filenameIndex \<noteq> CHR ''.'') [sepIndex + 1..dotIndex - 1]
         then (take (nat dotIndex) p, drop (nat dotIndex) p)
         else (p, []))"

text \<open>\<open>os.path.join(a, b)\<close>, and with more components.\<close>

definition path_join :: "string \<Rightarrow> string \<Rightarrow> string" where
  "path_join path b =
     (if b \<noteq> [] \<and> hd b = CHR ''/'' then b
      else if path = [] \<or> last path = CHR ''/'' then path @ b
      else path @ ''/'' @ b)"

section \<open>The writer\<close>

text \<open>
  A fragment is a pair \<open>(path, lines)\<close>. The lines are either a sequence that can be
  iterated again (a list or a tuple: \<open>Lines\<close>) or a generator object (\<open>Gen\<close>, named by
  its identity): \<open>get_map_lines\<close> is a generator function, and a generator yields its
  lines once. The lines a generator has still to yield are in the world.
\<close>

datatype lineseq = Lines "string list" | Gen nat

type_synonym fragment = "string \<times> lineseq"

record FileWriter =
  fileparts :: "fragment list"
  bindir_name :: "string option"
  core_sources :: string
  objdir_name :: "string option"

definition cxx_generated_warning :: "string list" where
  "cxx_generated_warning =
     [''/***'', '' * THIS FILE IS AUTOMATICALLY GENERATED'',
      '' * Do not edit this file. It will be overwritten when the configure script is run.'',
      '' ***/'', []]"

definition make_generated_warning :: "string list" where
  "make_generated_warning =
     [''###'', ''# THIS FILE IS AUTOMATICALLY GENERATED'',
      ''# Do not edit this file. It will be overwritten when the configure script is run.'',
      ''###'', []]"

text \<open>\<open>sep.join(xs)\<close>\<close>

fun join :: "string \<Rightarrow> string list \<Rightarrow> string" where
  "join sep [] = []"
| "join sep [x] = x"
| "join sep (x # y # ys) = x @ sep @ join sep (y # ys)"

text \<open>
  Iterating a line sequence to its end: a list gives its elements and stays as it is, a
  generator gives what it has left and is exhausted afterwards. \<open>chain_lines\<close> is
  \<open>itertools.chain\<close> over the line sequences of the fragments of one group, consumed
  by \<open>join\<close> from left to right.
\<close>

fun consume :: "lineseq \<Rightarrow> world \<Rightarrow> string list \<times> world" where
  "consume (Lines xs) w = (xs, w)"
| "consume (Gen g) w = (gens w g, w\<lparr>gens := (gens w)(g := [])\<rparr>)"

fun chain_lines :: "fragment list \<Rightarrow> world \<Rightarrow> string list \<times> world" where
  "chain_lines [] w = ([], w)"
| "chain_lines (f # fs) w =
     (let (xs, w1) = consume (snd f) w;
          (ys, w2) = chain_lines fs w1
      in (xs @ ys, w2))"

text \<open>
  \<open>itertools.groupby\<close>: the maximal runs of consecutive elements with the same key, each
  with its key.
\<close>

function groupby :: "('a \<Rightarrow> 'k) \<Rightarrow> 'a list \<Rightarrow> ('k \<times> 'a list) list" where
  "groupby key [] = []"
| "groupby key (x # xs) =
     (key x, x # takeWhile (\<lambda>y. key y = key x) xs) # groupby key (dropWhile (\<lambda>y. key y = key x) xs)"
  by pat_completeness auto
termination
  by (relation "measure (\<lambda>(key, xs). length xs)") (auto simp: length_dropWhile_le less_Suc_eq_le)

text \<open>
  The body of the loop of \<open>finish\<close> for one group. \<open>os.makedirs(..., exist_ok=True)\<close>
  creates directories only and changes no file of the model. \<open>contents_with_header\<close>
  is the chain of the banner chosen by the extension and of the lines of the group.
\<close>

definition contents_with_header :: "string \<Rightarrow> string list \<Rightarrow> string list" where
  "contents_with_header fname group_lines =
     (if snd (splitext fname) \<in> set [''.cc'', ''.h'', ''.inc''] then cxx_generated_warning @ group_lines
      else if snd (splitext fname) \<in> set [''.mk''] then make_generated_warning @ group_lines
      else group_lines)"

definition finish_group :: "string \<times> fragment list \<Rightarrow> world \<Rightarrow> world" where
  "finish_group = (\<lambda>(fname, fcontents) w.
     (let (group_lines, w1) = chain_lines fcontents w
      in write_if_different fname (join [LF] (contents_with_header fname group_lines)) w1))"

text \<open>
  \<open>FileWriter.finish\<close>: the groups of the fragments sorted by path (\<open>sorted\<close> is stable,
  as \<open>sort_key\<close> is), one after the other. The method assigns to no attribute of
  \<open>self\<close>; it returns the writer as it is together with the new world.
\<close>

definition finish_groups :: "fragment list \<Rightarrow> (string \<times> fragment list) list" where
  "finish_groups parts = groupby fst (sort_key fst parts)"

definition finish :: "FileWriter \<Rightarrow> world \<Rightarrow> FileWriter \<times> world" where
  "finish self w = (self, fold finish_group (finish_groups (fileparts self)) w)"

definition empty_world :: world where
  "empty_world = \<lparr>files = Map.empty, writes = [], gens = (\<lambda>_. []), next_gen = 0\<rparr>"

subsection \<open>Grouping a list sorted by its key\<close>

lemma groupby_keys: "set (map fst (groupby key xs)) = key ` set xs"
proof (induction key xs rule: groupby.induct)
  case (1 key)
  then show ?case by simp
next
  case (2 key x xs)
  let ?rest = "dropWhile (\<lambda>y. key y = key x) xs"
  have sub: "set ?rest \<subseteq> set xs"
    by (auto dest: set_dropWhileD)
  have cov: "key y = key x \<or> y \<in> set ?rest" if "y \<in> set xs" for y
    using that by (metis (mono_tags, lifting) Un_iff set_append set_takeWhileD takeWhile_dropWhile_id)
  have "insert (key x) (key ` set ?rest) = insert (key x) (key ` set xs)"
    using sub cov by auto
  then show ?case using "2.IH" by simp
qed

lemma dropWhile_key_greater:
  fixes key :: "'a \<Rightarrow> 'k::linorder"
  shows "sorted (map key (x # xs)) \<Longrightarrow> y \<in> set (dropWhile (\<lambda>y. key y = key x) xs) \<Longrightarrow> key x < key y"
proof (induction xs)
  case Nil
  then show ?case by simp
next
  case (Cons z zs)
  show ?case
  proof (cases "key z = key x")
    case True
    then show ?thesis using Cons by auto
  next
    case False
    then have "key x < key z" using Cons.prems(1) by auto
    moreover have "key z \<le> key y" using Cons.prems False by auto
    ultimately show ?thesis by simp
  qed
qed

lemma filter_key_takeWhile:
  fixes key :: "'a \<Rightarrow> 'k::linorder"
  assumes "sorted (map key (x # xs))"
  shows "filter (\<lambda>y. key y = key x) xs = takeWhile (\<lambda>y. key y = key x) xs"
proof -
  let ?P = "\<lambda>y. key y = key x"
  have "\<not> ?P y" if "y \<in> set (dropWhile ?P xs)" for y
    using dropWhile_key_greater[OF assms that] by simp
  then have "filter ?P (dropWhile ?P xs) = []"
    unfolding filter_empty_conv by blast
  moreover have "filter ?P (takeWhile ?P xs) = takeWhile ?P xs"
    by (rule filter_True) (blast dest: set_takeWhileD)
  ultimately have "filter ?P (takeWhile ?P xs @ dropWhile ?P xs) = takeWhile ?P xs"
    by (simp only: filter_append append_Nil2)
  then show ?thesis by (simp only: takeWhile_dropWhile_id)
qed

lemma sorted_dropWhile_key:
  fixes key :: "'a \<Rightarrow> 'k::linorder"
  shows "sorted (map key xs) \<Longrightarrow> sorted (map key (dropWhile P xs))"
  by (induction xs) auto

lemma groupby_sorted_keys:
  fixes key :: "'a \<Rightarrow> 'k::linorder"
  shows "sorted (map key xs) \<Longrightarrow> sorted (map fst (groupby key xs)) \<and> distinct (map fst (groupby key xs))"
proof (induction key xs rule: groupby.induct)
  case (1 key)
  then show ?case by simp
next
  case (2 key x xs)
  let ?rest = "dropWhile (\<lambda>y. key y = key x) xs"
  have ih: "sorted (map fst (groupby key ?rest)) \<and> distinct (map fst (groupby key ?rest))"
    using "2.IH" "2.prems" sorted_dropWhile_key[of key xs] by simp
  have gt: "\<forall>k\<in>set (map fst (groupby key ?rest)). key x < k"
    unfolding groupby_keys using dropWhile_key_greater[OF "2.prems"] by auto
  show ?case using ih gt by (auto simp: less_imp_le)
qed

lemma groupby_sorted_groups:
  fixes key :: "'a \<Rightarrow> 'k::linorder"
  shows "sorted (map key xs)
    \<Longrightarrow> groupby key xs = map (\<lambda>k. (k, filter (\<lambda>y. key y = k) xs)) (map fst (groupby key xs))"
proof (induction key xs rule: groupby.induct)
  case (1 key)
  then show ?case by simp
next
  case (2 key x xs)
  let ?P = "\<lambda>y. key y = key x"
  let ?rest = "dropWhile ?P xs"
  have sx: "sorted (map key xs)" using "2.prems" by simp
  have ih: "groupby key ?rest = map (\<lambda>k. (k, filter (\<lambda>y. key y = k) ?rest)) (map fst (groupby key ?rest))"
    by (rule "2.IH"[OF sorted_dropWhile_key[OF sx]])
  have gt: "\<forall>k\<in>set (map fst (groupby key ?rest)). key x < k"
    unfolding groupby_keys using dropWhile_key_greater[OF "2.prems"] by auto
  have same: "filter (\<lambda>y. key y = k) (x # xs) = filter (\<lambda>y. key y = k) ?rest"
    if "k \<in> set (map fst (groupby key ?rest))" for k
  proof -
    have ne: "k \<noteq> key x" using gt that by auto
    have "filter (\<lambda>y. key y = k) (takeWhile ?P xs) = []"
      using ne by (auto simp: filter_empty_conv dest: set_takeWhileD)
    then have "filter (\<lambda>y. key y = k) (takeWhile ?P xs @ ?rest) = filter (\<lambda>y. key y = k) ?rest"
      by (simp only: filter_append append_Nil)
    then have "filter (\<lambda>y. key y = k) xs = filter (\<lambda>y. key y = k) ?rest"
      by (simp only: takeWhile_dropWhile_id)
    then show ?thesis using ne by auto
  qed
  have eqmap: "map (\<lambda>k. (k, filter (\<lambda>y. key y = k) (x # xs))) (map fst (groupby key ?rest))
      = map (\<lambda>k. (k, filter (\<lambda>y. key y = k) ?rest)) (map fst (groupby key ?rest))"
    by (rule map_cong) (simp_all add: same del: filter.simps)
  have tl: "map (\<lambda>k. (k, filter (\<lambda>y. key y = k) (x # xs))) (map fst (groupby key ?rest))
      = groupby key ?rest"
    by (simp only: eqmap ih[symmetric])
  have hd: "filter ?P (x # xs) = x # takeWhile ?P xs"
    using filter_key_takeWhile[OF "2.prems"] by simp
  have "map (\<lambda>k. (k, filter (\<lambda>y. key y = k) (x # xs))) (map fst (groupby key (x # xs)))
      = (key x, filter ?P (x # xs))
        # map (\<lambda>k. (k, filter (\<lambda>y. key y = k) (x # xs))) (map fst (groupby key ?rest))"
    by simp
  also have "\<dots> = (key x, x # takeWhile ?P xs) # groupby key ?rest"
    by (simp only: hd tl)
  also have "\<dots> = groupby key (x # xs)"
    by simp
  finally show ?case by (rule sym)
qed

lemma finish_groups_eq:
  "finish_groups parts
     = map (\<lambda>p. (p, filter (\<lambda>f. fst f = p) parts)) (sort (remdups (map fst parts)))"
proof -
  let ?xs = "sort_key fst parts"
  have s: "sorted (map fst ?xs)" by (rule sorted_sort_key)
  have keys: "map fst (groupby fst ?xs) = sort (remdups (map fst parts))"
  proof (rule sorted_distinct_set_unique)
    show "sorted (map fst (groupby fst ?xs))" "distinct (map fst (groupby fst ?xs))"
      using groupby_sorted_keys[OF s] by simp_all
    show "sorted (sort (remdups (map fst parts)))" "distinct (sort (remdups (map fst parts)))"
      by simp_all
    show "set (map fst (groupby fst ?xs)) = set (sort (remdups (map fst parts)))"
      unfolding groupby_keys by simp
  qed
  have "groupby fst ?xs = map (\<lambda>p. (p, filter (\<lambda>f. fst f = p) ?xs)) (sort (remdups (map fst parts)))"
    using groupby_sorted_groups[OF s] by (simp only: keys)
  then show ?thesis
    unfolding finish_groups_def by (simp add: sort_key_stable)
qed

section \<open>What a flush leaves behind\<close>

text \<open>
  The following functions describe the outcome of a flush; they are not part of the
  program. \<open>yield w ls\<close> are the lines that iterating \<open>ls\<close> gives in the world \<open>w\<close>,
  \<open>gen_ids\<close> the generator objects among the fragments, \<open>lines_for\<close> the lines of a
  list of fragments in their order, \<open>group_content\<close> the text built for a path from
  the lines of its fragments, and \<open>needs_write\<close> says that the file is absent or that
  its stripped lines differ from those of the new text.
\<close>

definition yield :: "world \<Rightarrow> lineseq \<Rightarrow> string list" where
  "yield w ls = (case ls of Lines xs \<Rightarrow> xs | Gen g \<Rightarrow> gens w g)"

fun gen_ids :: "fragment list \<Rightarrow> nat list" where
  "gen_ids [] = []"
| "gen_ids ((p, Lines xs) # fs) = gen_ids fs"
| "gen_ids ((p, Gen g) # fs) = g # gen_ids fs"

definition lines_for :: "world \<Rightarrow> fragment list \<Rightarrow> string list" where
  "lines_for w fs = concat (map (\<lambda>f. yield w (snd f)) fs)"

definition group_content :: "world \<Rightarrow> string \<Rightarrow> fragment list \<Rightarrow> string" where
  "group_content w p fs = join [LF] (contents_with_header p (lines_for w fs))"

definition needs_write :: "world \<Rightarrow> string \<Rightarrow> string \<Rightarrow> bool" where
  "needs_write w fname new =
     (case files w fname of
        None \<Rightarrow> True
      | Some old \<Rightarrow> map strip (readlines old) \<noteq> map strip (splitlines new))"

lemma write_if_different_eq:
  "write_if_different fname new w =
     (if needs_write w fname new
      then w\<lparr>files := (files w)(fname \<mapsto> new), writes := writes w @ [fname]\<rparr>
      else w)"
  by (simp add: write_if_different_def write_text_def needs_write_def files_are_different_iff
      split: option.split)

lemma gen_ids_append [simp]: "gen_ids (fs @ gs) = gen_ids fs @ gen_ids gs"
  by (induction fs rule: gen_ids.induct) simp_all

lemma gen_ids_mem: "f \<in> set fs \<Longrightarrow> snd f = Gen g \<Longrightarrow> g \<in> set (gen_ids fs)"
  by (induction fs rule: gen_ids.induct) auto

lemma gen_ids_filter: "set (gen_ids (filter P fs)) \<subseteq> set (gen_ids fs)"
  by (induction fs rule: gen_ids.induct) auto

lemma yield_cong:
  "(\<And>g. ls = Gen g \<Longrightarrow> gens w g = gens w' g) \<Longrightarrow> yield w ls = yield w' ls"
  by (cases ls) (simp_all add: yield_def)

lemma lines_for_cong:
  assumes "\<And>g. g \<in> set (gen_ids fs) \<Longrightarrow> gens w g = gens w' g"
  shows "lines_for w fs = lines_for w' fs"
proof -
  have "yield w (snd f) = yield w' (snd f)" if "f \<in> set fs" for f
    by (rule yield_cong) (simp add: assms gen_ids_mem[OF that])
  then show ?thesis
    unfolding lines_for_def by (simp cong: map_cong)
qed

lemma chain_lines_yield:
  "distinct (gen_ids fs) \<Longrightarrow>
   chain_lines fs w
     = (lines_for w fs, w\<lparr>gens := (\<lambda>g. if g \<in> set (gen_ids fs) then [] else gens w g)\<rparr>)"
proof (induction fs arbitrary: w rule: gen_ids.induct)
  case 1
  then show ?case by (simp add: lines_for_def)
next
  case (2 p xs fs)
  then show ?case by (simp add: lines_for_def yield_def)
next
  case (3 p g fs)
  let ?w1 = "w\<lparr>gens := (gens w)(g := [])\<rparr>"
  have d: "distinct (gen_ids fs)" and n: "g \<notin> set (gen_ids fs)"
    using "3.prems" by simp_all
  have l: "lines_for ?w1 fs = lines_for w fs"
    by (rule lines_for_cong) (use n in auto)
  have "chain_lines ((p, Gen g) # fs) w
      = (gens w g @ lines_for ?w1 fs,
         ?w1\<lparr>gens := (\<lambda>h. if h \<in> set (gen_ids fs) then [] else gens ?w1 h)\<rparr>)"
    by (simp add: "3.IH"[OF d])
  also have "\<dots> = (lines_for w ((p, Gen g) # fs),
         w\<lparr>gens := (\<lambda>h. if h \<in> set (gen_ids ((p, Gen g) # fs)) then [] else gens w h)\<rparr>)"
    unfolding l by (auto simp: lines_for_def yield_def fun_eq_iff)
  finally show ?case .
qed

text \<open>
  \<open>flushed w gs\<close> is the world after the groups \<open>gs\<close> have been written in a flush that
  started in \<open>w\<close>: every group's file holds the text built for it if it needed
  writing, the writes are logged in the order of the groups, and the generators of the
  groups are exhausted.
\<close>

definition flushed :: "world \<Rightarrow> (string \<times> fragment list) list \<Rightarrow> world" where
  "flushed w gs =
     w\<lparr>files := (\<lambda>q. case map_of gs q of
                       None \<Rightarrow> files w q
                     | Some fs \<Rightarrow> if needs_write w q (group_content w q fs)
                                 then Some (group_content w q fs) else files w q),
       writes := writes w @ filter (\<lambda>q. needs_write w q (group_content w q (the (map_of gs q))))
                              (map fst gs),
       gens := (\<lambda>g. if g \<in> set (gen_ids (concat (map snd gs))) then [] else gens w g)\<rparr>"

lemma flushed_Nil: "flushed w [] = w"
  by (simp add: flushed_def)

lemma finish_group_flushed:
  assumes p: "p \<notin> fst ` set gs"
    and d: "distinct (gen_ids fs)"
    and n: "set (gen_ids fs) \<inter> set (gen_ids (concat (map snd gs))) = {}"
  shows "finish_group (p, fs) (flushed w gs) = flushed w (gs @ [(p, fs)])"
proof -
  let ?w1 = "flushed w gs"
  let ?w2 = "?w1\<lparr>gens := (\<lambda>g. if g \<in> set (gen_ids fs) then [] else gens ?w1 g)\<rparr>"
  let ?new = "group_content w p fs"
  have m: "map_of gs p = None"
    using p by (simp add: map_of_eq_None_iff)
  have l: "lines_for ?w1 fs = lines_for w fs"
    by (rule lines_for_cong) (use n in \<open>auto simp: flushed_def\<close>)
  have c: "chain_lines fs ?w1 = (lines_for w fs, ?w2)"
    unfolding chain_lines_yield[OF d] l ..
  have fg: "finish_group (p, fs) ?w1 = write_if_different p ?new ?w2"
    by (simp add: finish_group_def c group_content_def)
  have nw: "needs_write ?w2 p ?new = needs_write w p ?new"
    by (simp add: needs_write_def flushed_def m)
  have mo: "map_of (gs @ [(p, fs)]) q = (if q = p then Some fs else map_of gs q)" for q
    using m by (auto simp: map_add_def split: option.split)
  have fl: "filter (\<lambda>q. needs_write w q (group_content w q (the (map_of (gs @ [(p, fs)]) q)))) (map fst gs)
      = filter (\<lambda>q. needs_write w q (group_content w q (the (map_of gs q)))) (map fst gs)"
  proof (rule filter_cong[OF refl])
    fix q
    assume "q \<in> set (map fst gs)"
    then have "q \<noteq> p" using p by auto
    then show "needs_write w q (group_content w q (the (map_of (gs @ [(p, fs)]) q)))
        = needs_write w q (group_content w q (the (map_of gs q)))"
      by (simp only: mo if_False)
  qed
  show ?thesis
  proof (cases "needs_write w p ?new")
    case True
    have "write_if_different p ?new ?w2
        = ?w2\<lparr>files := (files ?w2)(p \<mapsto> ?new), writes := writes ?w2 @ [p]\<rparr>"
      using True nw by (simp add: write_if_different_eq)
    also have "\<dots> = flushed w (gs @ [(p, fs)])"
      unfolding flushed_def[of w "gs @ [(p, fs)]"] map_append filter_append fl
      using True by (auto simp: flushed_def mo fun_eq_iff simp del: map_of_append)
    finally show ?thesis using fg by simp
  next
    case False
    have "write_if_different p ?new ?w2 = ?w2"
      using False nw by (simp add: write_if_different_eq)
    also have "\<dots> = flushed w (gs @ [(p, fs)])"
      unfolding flushed_def[of w "gs @ [(p, fs)]"] map_append filter_append fl
      using False by (auto simp: flushed_def mo fun_eq_iff m simp del: map_of_append)
    finally show ?thesis using fg by simp
  qed
qed

lemma fold_finish_group:
  "distinct (map fst gs) \<Longrightarrow> distinct (gen_ids (concat (map snd gs)))
     \<Longrightarrow> fold finish_group gs w = flushed w gs"
proof (induction gs rule: rev_induct)
  case Nil
  then show ?case by (simp add: flushed_Nil)
next
  case (snoc g gs)
  obtain p fs where g: "g = (p, fs)" by (cases g)
  have "fold finish_group gs w = flushed w gs"
    using snoc by simp
  moreover have "finish_group (p, fs) (flushed w gs) = flushed w (gs @ [(p, fs)])"
    by (rule finish_group_flushed) (use snoc.prems g in auto)
  ultimately show ?case by (simp add: g)
qed

subsection \<open>The groups of a flush\<close>

lemma groupby_concat: "concat (map snd (groupby key xs)) = xs"
  by (induction key xs rule: groupby.induct) simp_all

lemma gen_ids_Cons:
  "gen_ids (f # fs) = (case snd f of Lines xs \<Rightarrow> [] | Gen g \<Rightarrow> [g]) @ gen_ids fs"
  by (cases f; cases "snd f") auto

lemma gen_ids_insort_key:
  "set (gen_ids (insort_key k f fs)) = set (gen_ids (f # fs))
   \<and> distinct (gen_ids (insort_key k f fs)) = distinct (gen_ids (f # fs))"
  by (induction fs) (auto simp: gen_ids_Cons split: lineseq.splits)

lemma gen_ids_sort_key:
  "set (gen_ids (sort_key k fs)) = set (gen_ids fs)
   \<and> distinct (gen_ids (sort_key k fs)) = distinct (gen_ids fs)"
proof (induction fs)
  case Nil
  then show ?case by simp
next
  case (Cons f fs)
  have "sort_key k (f # fs) = insort_key k f (sort_key k fs)"
    by simp
  then show ?case
    using Cons gen_ids_insort_key[of k f "sort_key k fs"]
    by (auto simp: gen_ids_Cons split: lineseq.splits)
qed

lemma finish_groups_concat: "concat (map snd (finish_groups parts)) = sort_key fst parts"
  by (simp add: finish_groups_def groupby_concat)

lemma finish_groups_keys: "map fst (finish_groups parts) = sort (remdups (map fst parts))"
  by (simp add: finish_groups_eq o_def)

lemma finish_groups_map_of:
  "map_of (finish_groups parts) q
     = (if q \<in> fst ` set parts then Some (filter (\<lambda>f. fst f = q) parts) else None)"
proof -
  have "map_of (map (\<lambda>p. (p, F p)) ks) q = (if q \<in> set ks then Some (F q) else None)"
    for F :: "string \<Rightarrow> fragment list" and ks
    by (induction ks) auto
  then show ?thesis
    unfolding finish_groups_eq by simp
qed

text \<open>
  The text built for the path \<open>p\<close> in a flush of the fragments \<open>parts\<close> that starts in
  the world \<open>w\<close>.
\<close>

definition path_content :: "world \<Rightarrow> fragment list \<Rightarrow> string \<Rightarrow> string" where
  "path_content w parts p = group_content w p (filter (\<lambda>f. fst f = p) parts)"

lemma finish_world:
  assumes "distinct (gen_ids (fileparts self))"
  shows "snd (finish self w) =
     w\<lparr>files := (\<lambda>q. if q \<in> fst ` set (fileparts self)
                          \<and> needs_write w q (path_content w (fileparts self) q)
                       then Some (path_content w (fileparts self) q) else files w q),
       writes := writes w @ filter (\<lambda>q. needs_write w q (path_content w (fileparts self) q))
                              (sort (remdups (map fst (fileparts self)))),
       gens := (\<lambda>g. if g \<in> set (gen_ids (fileparts self)) then [] else gens w g)\<rparr>"
proof -
  let ?parts = "fileparts self"
  let ?gs = "finish_groups ?parts"
  have d1: "distinct (map fst ?gs)"
    by (simp add: finish_groups_keys)
  have d2: "distinct (gen_ids (concat (map snd ?gs)))"
    using assms by (simp add: finish_groups_concat gen_ids_sort_key)
  have "snd (finish self w) = flushed w ?gs"
    by (simp add: finish_def fold_finish_group[OF d1 d2])
  also have "\<dots> =
     w\<lparr>files := (\<lambda>q. if q \<in> fst ` set ?parts \<and> needs_write w q (path_content w ?parts q)
                       then Some (path_content w ?parts q) else files w q),
       writes := writes w @ filter (\<lambda>q. needs_write w q (path_content w ?parts q))
                              (sort (remdups (map fst ?parts))),
       gens := (\<lambda>g. if g \<in> set (gen_ids ?parts) then [] else gens w g)\<rparr>"
  proof -
    have f: "(\<lambda>q. case map_of ?gs q of
                       None \<Rightarrow> files w q
                     | Some fs \<Rightarrow> if needs_write w q (group_content w q fs)
                                 then Some (group_content w q fs) else files w q)
        = (\<lambda>q. if q \<in> fst ` set ?parts \<and> needs_write w q (path_content w ?parts q)
                       then Some (path_content w ?parts q) else files w q)"
      by (rule ext) (simp add: finish_groups_map_of path_content_def)
    have wr: "filter (\<lambda>q. needs_write w q (group_content w q (the (map_of ?gs q)))) (map fst ?gs)
        = filter (\<lambda>q. needs_write w q (path_content w ?parts q)) (sort (remdups (map fst ?parts)))"
      unfolding finish_groups_keys
      by (rule filter_cong[OF refl]) (simp add: finish_groups_map_of path_content_def)
    have g: "set (gen_ids (concat (map snd ?gs))) = set (gen_ids ?parts)"
      by (simp add: finish_groups_concat gen_ids_sort_key)
    show ?thesis
      unfolding flushed_def f wr g ..
  qed
  finally show ?thesis .
qed

section \<open>The files of a flush\<close>

lemma join_append:
  "ys \<noteq> [] \<Longrightarrow> join sep (xs @ ys) = text_of sep xs @ join sep ys"
proof (induction xs)
  case Nil
  then show ?case by (simp add: text_of_def)
next
  case (Cons x xs)
  then obtain z zs where "xs @ ys = z # zs"
    by (cases "xs @ ys") auto
  then show ?case using Cons by (simp add: text_of_def)
qed

lemma splitlines_from_text_of:
  "list_all plain ls \<Longrightarrow> splitlines_from [] (text_of [LF] ls @ s) = ls @ splitlines_from [] s"
  unfolding text_of_def
  by (induction ls) (simp_all add: splitlines_from_plain_line)

text \<open>
  The file of a path after a flush: it holds the text built for the path, unless it
  existed with the same stripped lines, and then it is as it was.
\<close>

lemma finish_file:
  assumes "distinct (gen_ids (fileparts self))" "p \<in> fst ` set (fileparts self)"
  shows "files (snd (finish self w)) p =
     (if needs_write w p (path_content w (fileparts self) p)
      then Some (path_content w (fileparts self) p) else files w p)"
  using assms(2) by (simp add: finish_world[OF assms(1)])

lemma finish_writes:
  assumes "distinct (gen_ids (fileparts self))"
  shows "writes (snd (finish self w)) =
     writes w @ filter (\<lambda>q. needs_write w q (path_content w (fileparts self) q))
                  (sort (remdups (map fst (fileparts self))))"
  by (simp add: finish_world[OF assms])

lemma plain_banners:
  "list_all plain cxx_generated_warning" "list_all plain make_generated_warning"
  by (simp_all add: cxx_generated_warning_def make_generated_warning_def is_linebreak_def)

text \<open>
  C3. After a flush, the file of a target path holds the lines of its fragments behind
  the five lines of the C++ banner when the extension of the path is \<open>.cc\<close>, \<open>.h\<close> or
  \<open>.inc\<close>, behind the five lines of the make banner when it is \<open>.mk\<close>, and the lines
  alone for any other extension (unless the file existed with the same stripped
  lines, and then it is kept). The two banners are fixed texts. Every generator object
  is taken to belong to one fragment.
\<close>

theorem banner_by_extension:
  assumes "distinct (gen_ids (fileparts self))" and "p \<in> fst ` set (fileparts self)"
  shows "(let ext = snd (splitext p);
              ls = lines_for w (filter (\<lambda>f. fst f = p) (fileparts self));
              new = join [LF] ((if ext = ''.cc'' \<or> ext = ''.h'' \<or> ext = ''.inc'' then cxx_generated_warning
                                else if ext = ''.mk'' then make_generated_warning
                                else []) @ ls)
          in (files w p = None \<longrightarrow> files (snd (finish self w)) p = Some new) \<and>
             (\<forall>old. files w p = Some old \<longrightarrow>
                files (snd (finish self w)) p
                  = (if map strip (readlines old) = map strip (splitlines new)
                     then Some old else Some new)))
         \<and> cxx_generated_warning =
             [''/***'', '' * THIS FILE IS AUTOMATICALLY GENERATED'',
              '' * Do not edit this file. It will be overwritten when the configure script is run.'',
              '' ***/'', '''']
         \<and> make_generated_warning =
             [''###'', ''# THIS FILE IS AUTOMATICALLY GENERATED'',
              ''# Do not edit this file. It will be overwritten when the configure script is run.'',
              ''###'', '''']
         \<and> length cxx_generated_warning = 5 \<and> length make_generated_warning = 5"
proof -
  let ?ext = "snd (splitext p)"
  let ?ls = "lines_for w (filter (\<lambda>f. fst f = p) (fileparts self))"
  let ?new = "join [LF] ((if ?ext = ''.cc'' \<or> ?ext = ''.h'' \<or> ?ext = ''.inc'' then cxx_generated_warning
                                else if ?ext = ''.mk'' then make_generated_warning
                                else []) @ ?ls)"
  have c: "path_content w (fileparts self) p = ?new"
    by (simp add: path_content_def group_content_def contents_with_header_def)
  have f: "files (snd (finish self w)) p = (if needs_write w p ?new then Some ?new else files w p)"
    using finish_file[OF assms, of w] unfolding c .
  have 1: "files (snd (finish self w)) p = Some ?new" if "files w p = None"
    using that by (simp add: f needs_write_def)
  have 2: "files (snd (finish self w)) p
      = (if map strip (readlines old) = map strip (splitlines ?new) then Some old else Some ?new)"
    if "files w p = Some old" for old
    using that by (simp add: f needs_write_def)
  show ?thesis
    unfolding Let_def using 1 2
    by (simp add: cxx_generated_warning_def make_generated_warning_def)
qed

definition banner_writer :: FileWriter where
  "banner_writer =
     \<lparr>fileparts = [(''o/inc/core_inst.inc'', Lines [''x'']), (''o/m.cc'', Gen 0),
                   (''o/inc/champsim_constants.h'', Lines [''y'', ''z'']),
                   (''_configuration.mk'', Lines [''v = 1'']), (''o/notes.txt'', Lines [''n''])],
      bindir_name = None, core_sources = ''src'', objdir_name = None\<rparr>"

definition banner_world :: world where
  "banner_world =
     \<lparr>files = [''o/notes.txt'' \<mapsto> ''n \<newline>''], writes = [], gens = (\<lambda>_. [''int f();'']), next_gen = 1\<rparr>"

theorem banner_by_extension_witness:
  "files (snd (finish banner_writer banner_world)) ''o/inc/champsim_constants.h''
     = Some (text_of [LF] cxx_generated_warning @ ''y\<newline>z'')
   \<and> files (snd (finish banner_writer banner_world)) ''o/inc/core_inst.inc''
     = Some (text_of [LF] cxx_generated_warning @ ''x'')
   \<and> files (snd (finish banner_writer banner_world)) ''o/m.cc''
     = Some (text_of [LF] cxx_generated_warning @ ''int f();'')
   \<and> files (snd (finish banner_writer banner_world)) ''_configuration.mk''
     = Some (text_of [LF] make_generated_warning @ ''v = 1'')
   \<and> files (snd (finish banner_writer banner_world)) ''o/notes.txt'' = Some ''n \<newline>''"
proof -
  have d: "distinct (gen_ids (fileparts banner_writer))"
    by (simp add: banner_writer_def)
  have e: "snd (splitext ''o/inc/champsim_constants.h'') = ''.h''"
    "snd (splitext ''o/inc/core_inst.inc'') = ''.inc''"
    "snd (splitext ''o/m.cc'') = ''.cc''"
    "snd (splitext ''_configuration.mk'') = ''.mk''"
    "snd (splitext ''o/notes.txt'') = ''.txt''"
    by (simp_all add: splitext_def rfind_def upto.simps)
  have n: "files banner_world ''o/inc/champsim_constants.h'' = None"
    "files banner_world ''o/inc/core_inst.inc'' = None"
    "files banner_world ''o/m.cc'' = None"
    "files banner_world ''_configuration.mk'' = None"
    "files banner_world ''o/notes.txt'' = Some ''n \<newline>''"
    by (simp_all add: banner_world_def)
  have s: "map strip (readlines ''n \<newline>'') = map strip (splitlines ''n'')"
    by (simp add: readlines_def splitlines_def strip_def isspace_def is_linebreak_def)
  have m: "''o/inc/champsim_constants.h'' \<in> fst ` set (fileparts banner_writer)"
    "''o/inc/core_inst.inc'' \<in> fst ` set (fileparts banner_writer)"
    "''o/m.cc'' \<in> fst ` set (fileparts banner_writer)"
    "''_configuration.mk'' \<in> fst ` set (fileparts banner_writer)"
    "''o/notes.txt'' \<in> fst ` set (fileparts banner_writer)"
    by (simp_all add: banner_writer_def)
  note ev = e banner_writer_def banner_world_def lines_for_def yield_def text_of_def
    cxx_generated_warning_def make_generated_warning_def
  have 1: "files (snd (finish banner_writer banner_world)) ''o/inc/champsim_constants.h''
     = Some (text_of [LF] cxx_generated_warning @ ''y\<newline>z'')"
    unfolding banner_by_extension[OF d m(1), of banner_world, unfolded Let_def, THEN conjunct1,
        THEN conjunct1, rule_format, OF n(1)]
    by (simp add: ev)
  have 2: "files (snd (finish banner_writer banner_world)) ''o/inc/core_inst.inc''
     = Some (text_of [LF] cxx_generated_warning @ ''x'')"
    unfolding banner_by_extension[OF d m(2), of banner_world, unfolded Let_def, THEN conjunct1,
        THEN conjunct1, rule_format, OF n(2)]
    by (simp add: ev)
  have 3: "files (snd (finish banner_writer banner_world)) ''o/m.cc''
     = Some (text_of [LF] cxx_generated_warning @ ''int f();'')"
    unfolding banner_by_extension[OF d m(3), of banner_world, unfolded Let_def, THEN conjunct1,
        THEN conjunct1, rule_format, OF n(3)]
    by (simp add: ev)
  have 4: "files (snd (finish banner_writer banner_world)) ''_configuration.mk''
     = Some (text_of [LF] make_generated_warning @ ''v = 1'')"
    unfolding banner_by_extension[OF d m(4), of banner_world, unfolded Let_def, THEN conjunct1,
        THEN conjunct1, rule_format, OF n(4)]
    by (simp add: ev)
  have 5: "files (snd (finish banner_writer banner_world)) ''o/notes.txt'' = Some ''n \<newline>''"
    unfolding banner_by_extension[OF d m(5), of banner_world, unfolded Let_def, THEN conjunct1,
        THEN conjunct2, rule_format, OF n(5)]
    using s by (simp add: ev)
  show ?thesis
    using 1 2 3 4 5 by simp
qed

text \<open>
  C4. A path with the include extension \<open>.inc\<close> does receive a banner: the extension
  is one of those of the C++ banner. After a flush that writes them, a header
  \<open>.h\<close> and an include file \<open>.inc\<close> both start with the five lines of the C++ banner,
  and a make fragment \<open>.mk\<close> with the five lines of the make banner, followed by the
  lines of the path; this is stated for a path that has at least one line.
\<close>

definition inc_writer :: FileWriter where
  "inc_writer =
     \<lparr>fileparts = [(''o/inc/ooo_cpu_module_decl.inc'', Lines [''x'']),
                   (''o/inc/champsim_constants.h'', Lines [''y'']),
                   (''_configuration.mk'', Lines [''v''])],
      bindir_name = None, core_sources = ''src'', objdir_name = None\<rparr>"

theorem include_file_gets_banner:
  "files (snd (finish inc_writer empty_world)) ''o/inc/ooo_cpu_module_decl.inc''
     = Some (text_of [LF] cxx_generated_warning @ ''x'')
   \<and> files (snd (finish inc_writer empty_world)) ''o/inc/ooo_cpu_module_decl.inc'' \<noteq> Some ''x''
   \<and> take 5 (splitlines (the (files (snd (finish inc_writer empty_world)) ''o/inc/ooo_cpu_module_decl.inc'')))
     = [''/***'', '' * THIS FILE IS AUTOMATICALLY GENERATED'',
        '' * Do not edit this file. It will be overwritten when the configure script is run.'',
        '' ***/'', '''']"
proof -
  have d: "distinct (gen_ids (fileparts inc_writer))"
    and m: "''o/inc/ooo_cpu_module_decl.inc'' \<in> fst ` set (fileparts inc_writer)"
    by (simp_all add: inc_writer_def)
  have e: "snd (splitext ''o/inc/ooo_cpu_module_decl.inc'') = ''.inc''"
    by (simp add: splitext_def rfind_def upto.simps)
  have "files (snd (finish inc_writer empty_world)) ''o/inc/ooo_cpu_module_decl.inc''
      = Some (text_of [LF] cxx_generated_warning @ ''x'')"
    unfolding finish_file[OF d m]
    by (simp add: needs_write_def empty_world_def path_content_def group_content_def
        contents_with_header_def e inc_writer_def lines_for_def yield_def text_of_def
        cxx_generated_warning_def)
  then show ?thesis
    by (simp add: text_of_def cxx_generated_warning_def splitlines_def is_linebreak_def)
qed

theorem banner_of_written_file:
  assumes "distinct (gen_ids (fileparts self))"
    and "p \<in> set (writes (snd (finish self w)))" and "p \<notin> set (writes w)"
    and "lines_for w (filter (\<lambda>f. fst f = p) (fileparts self)) \<noteq> []"
  shows "(snd (splitext p) = ''.h'' \<or> snd (splitext p) = ''.inc'' \<longrightarrow>
            files (snd (finish self w)) p
              = Some (text_of [LF] cxx_generated_warning
                      @ join [LF] (lines_for w (filter (\<lambda>f. fst f = p) (fileparts self)))) \<and>
            take 5 (splitlines (the (files (snd (finish self w)) p))) = cxx_generated_warning) \<and>
         (snd (splitext p) = ''.mk'' \<longrightarrow>
            files (snd (finish self w)) p
              = Some (text_of [LF] make_generated_warning
                      @ join [LF] (lines_for w (filter (\<lambda>f. fst f = p) (fileparts self)))) \<and>
            take 5 (splitlines (the (files (snd (finish self w)) p))) = make_generated_warning)"
proof -
  let ?ls = "lines_for w (filter (\<lambda>f. fst f = p) (fileparts self))"
  let ?new = "path_content w (fileparts self) p"
  have "p \<in> set (filter (\<lambda>q. needs_write w q (path_content w (fileparts self) q))
                  (sort (remdups (map fst (fileparts self)))))"
    using assms(2,3) unfolding finish_writes[OF assms(1)] by simp
  then have m: "p \<in> fst ` set (fileparts self)" and n: "needs_write w p ?new"
    by simp_all
  have f: "files (snd (finish self w)) p = Some ?new"
    using finish_file[OF assms(1) m, of w] n by simp
  have t: "take 5 (splitlines (text_of [LF] b @ s)) = b" if "list_all plain b" "length b = 5" for b s
    using that by (simp add: splitlines_def splitlines_from_text_of)
  have c: "?new = text_of [LF] cxx_generated_warning @ join [LF] ?ls"
    if "snd (splitext p) = ''.h'' \<or> snd (splitext p) = ''.inc''"
    using that assms(4)
    by (auto simp: path_content_def group_content_def contents_with_header_def join_append)
  have k: "?new = text_of [LF] make_generated_warning @ join [LF] ?ls"
    if "snd (splitext p) = ''.mk''"
    using that assms(4)
    by (simp add: path_content_def group_content_def contents_with_header_def join_append)
  have l: "length cxx_generated_warning = 5" "length make_generated_warning = 5"
    by (simp_all add: cxx_generated_warning_def make_generated_warning_def)
  show ?thesis
    using c k by (auto simp: f t[OF plain_banners(1) l(1)] t[OF plain_banners(2) l(2)])
qed

theorem banner_of_written_file_witness:
  "files (snd (finish inc_writer empty_world)) ''o/inc/champsim_constants.h''
     = Some (text_of [LF] cxx_generated_warning @ ''y'')
   \<and> take 5 (splitlines (the (files (snd (finish inc_writer empty_world)) ''o/inc/champsim_constants.h'')))
     = cxx_generated_warning
   \<and> files (snd (finish inc_writer empty_world)) ''_configuration.mk''
     = Some (text_of [LF] make_generated_warning @ ''v'')
   \<and> take 5 (splitlines (the (files (snd (finish inc_writer empty_world)) ''_configuration.mk'')))
     = make_generated_warning"
proof -
  have d: "distinct (gen_ids (fileparts inc_writer))"
    by (simp add: inc_writer_def)
  have e: "snd (splitext ''o/inc/champsim_constants.h'') = ''.h''"
    "snd (splitext ''_configuration.mk'') = ''.mk''"
    by (simp_all add: splitext_def rfind_def upto.simps)
  have wr: "''o/inc/champsim_constants.h'' \<in> set (writes (snd (finish inc_writer empty_world)))"
    "''_configuration.mk'' \<in> set (writes (snd (finish inc_writer empty_world)))"
    unfolding finish_writes[OF d]
    by (simp_all add: needs_write_def empty_world_def inc_writer_def)
  have nw: "''o/inc/champsim_constants.h'' \<notin> set (writes empty_world)"
    "''_configuration.mk'' \<notin> set (writes empty_world)"
    by (simp_all add: empty_world_def)
  have l: "lines_for empty_world (filter (\<lambda>f. fst f = ''o/inc/champsim_constants.h'') (fileparts inc_writer)) = [''y'']"
    "lines_for empty_world (filter (\<lambda>f. fst f = ''_configuration.mk'') (fileparts inc_writer)) = [''v'']"
    by (simp_all add: inc_writer_def lines_for_def yield_def)
  show ?thesis
    using banner_of_written_file[OF d wr(1) nw(1)] banner_of_written_file[OF d wr(2) nw(2)]
    unfolding l e by auto
qed







section \<open>Flushing twice\<close>

text \<open>
  A text is read back as it was split when it holds none of the characters at which
  only \<open>str.splitlines\<close> ends a line (\<open>\v \f \x1c \x1d \x1e \x85\<close>). A fragment can
  be iterated again when its lines are a list or a tuple; here its lines are asked
  to be such texts as well. These two predicates describe the inputs; they are not
  part of the program.
\<close>

definition reread_safe :: "string \<Rightarrow> bool" where
  "reread_safe s \<longleftrightarrow>
     \<not> list_ex (\<lambda>c. c \<in> set [CHR 0x0B, CHR 0x0C, CHR 0x1C, CHR 0x1D, CHR 0x1E, CHR 0x85]) s"


lemma reread_safe_Nil [simp]: "reread_safe []"
  by (simp add: reread_safe_def)


lemma reread_safe_append [simp]: "reread_safe (s @ t) \<longleftrightarrow> reread_safe s \<and> reread_safe t"
  by (simp add: reread_safe_def list_ex_iff) blast


lemma lines_from_single: "lines_from cur [c] = [cur @ [c]]"
  by simp















end
